theory Spec2Isabelle
  imports Main "HOL-Library.Sublist" "HOL-Library.Word"
begin

section \<open>Values, errors and the data model\<close>

text \<open>
  The indexer is an asynchronous TypeScript program. Every awaited call is a step that
  takes the world and returns a result together with the new world; a thrown error (a
  rejected promise) is the left summand, and the world it returns is the world at the
  moment of the throw. Strings are byte lists; heights are integers (JavaScript numbers
  that stay far below \<open>2^53\<close>).
\<close>

datatype error = StorageUnavailable | NodeUnavailable | MalformedTransaction

datatype jsval = Str string | Obj "(string \<times> jsval) list"

type_synonym document = "(string \<times> jsval) list"

type_synonym bytes = "8 word list"

datatype jsnumber = Num int | NaN

text \<open>Legacy key/value data item of a type-12 transaction: \<open>{key, value}\<close>.\<close>

record data_item =
  item_key :: string
  item_value :: string

text \<open>
  \<open>Transaction\<close> (interface \<open>transaction.interface\<close>): \<open>id\<close>, \<open>type\<close>, \<open>sender\<close>,
  optional \<open>recipient\<close>, optional \<open>transfers\<close> (the recipients of the sub-entries), optional
  \<open>data\<close>, optional \<open>anchors\<close>, the association \<open>party\<close> and the \<open>timestamp\<close>.
\<close>

record transaction =
  tx_id :: string
  tx_type :: int
  sender :: string
  recipient :: "string option"
  transfers :: "string list option"
  data :: "data_item list option"
  anchors :: "string list option"
  party :: string
  timestamp :: int

record block =
  height :: int
  transactions :: "transaction list"

text \<open>
  Observation points of a scan pass, appended to the world's \<open>trace\<close> where the source
  resumes after the corresponding \<open>await\<close>: the block of a height has been fetched, the
  call \<open>processTransaction\<close> of a transaction has returned, the checkpoint of a height has
  been written.
\<close>

datatype event = GotBlock int | TxDone string | Saved int

text \<open>A storage write that has been started: the promise \<open>addObject(key, value)\<close>.\<close>

datatype promise = AddObject string jsval

text \<open>
  The world: the storage backend (\<open>faults\<close>, \<open>vals\<close>, \<open>objs\<close>, \<open>members\<close>, \<open>ranked\<close>), the
  writes that were started but whose promise nobody awaits (\<open>inflight\<close>), the trace, and
  the two fields of \<open>AnchorMonitorService\<close> (\<open>processing\<close>, \<open>lastBlock\<close>).
\<close>

record world =
  faults :: "bool list"
  vals :: "string \<rightharpoonup> string"
  objs :: "string \<Rightarrow> document"
  members :: "(string \<times> string) list"
  ranked :: "(string \<times> string \<times> string \<times> int) list"
  inflight :: "promise list"
  trace :: "event list"
  processing :: bool
  lastBlock :: int

type_synonym 'a io = "world \<Rightarrow> (error + 'a) \<times> world"

section \<open>External collaborators\<close>

text \<open>
  The encoder, the node client and the configuration are injected services whose code
  is outside the repository core; they are parameters of the model.
\<close>

record encoder =
  hexEncode :: "bytes \<Rightarrow> string"
  base64Decode :: "string \<Rightarrow> error + bytes"
  base58Decode :: "string \<Rightarrow> error + bytes"

record node =
  getLastBlockHeight :: "error + int"
  getBlock :: "int \<Rightarrow> error + block"

text \<open>An entry of a role definition's \<open>issues\<close> list: \<open>{role, type}\<close>.\<close>

record issues_role =
  role :: string
  role_type :: int

text \<open>A role definition of the configured table: optional \<open>issues\<close>, optional \<open>authorization\<close>.\<close>

record role_def =
  issues :: "issues_role list option"
  authorization :: "string list option"

record config =
  getTrustNetworkRoles_cfg :: "string \<rightharpoonup> role_def"
  typeName :: "int \<Rightarrow> string"
  recipientTypes :: "int list"

record services =
  cfg :: config
  enc :: encoder
  nod :: node

record RoleData =
  roles :: "string list"
  issues_roles :: "issues_role list"
  issues_authorization :: "string list"

section \<open>The storage backend\<close>

text \<open>
  Modelled from the spec: the storage backend behind \<open>StorageInterface\<close> (the Redis and
  LevelDB services are not among the sources). Section 4.1 of the specification fixes its
  contract: an absent key reads as an empty value, never as an error; a connectivity
  failure surfaces as the single error \<open>StorageUnavailable\<close>. The fault schedule \<open>faults\<close>
  is an input: each backend call consumes its head, and the call fails when the head is
  \<open>True\<close>; an exhausted schedule means a healthy backend.
\<close>

definition attempt :: "world \<Rightarrow> bool \<times> world" where
  "attempt w = (case faults w of [] \<Rightarrow> (True, w) | f # fs \<Rightarrow> (\<not> f, w\<lparr>faults := fs\<rparr>))"

text \<open>Modelled from the spec: \<open>getValue(key)\<close> of the scalar key-value store.\<close>

definition getValue :: "string \<Rightarrow> (string option) io" where
  "getValue k w = (case attempt w of
      (False, w1) \<Rightarrow> (Inl StorageUnavailable, w1)
    | (True, w1) \<Rightarrow> (Inr (vals w1 k), w1))"

text \<open>Modelled from the spec: \<open>setValue(key, value)\<close> of the scalar key-value store.\<close>

definition setValue :: "string \<Rightarrow> string \<Rightarrow> unit io" where
  "setValue k v w = (case attempt w of
      (False, w1) \<Rightarrow> (Inl StorageUnavailable, w1)
    | (True, w1) \<Rightarrow> (Inr (), w1\<lparr>vals := (vals w1)(k \<mapsto> v)\<rparr>))"

text \<open>Modelled from the spec: \<open>getObject(key)\<close>, a structured value or the empty document.\<close>

definition getObject :: "string \<Rightarrow> document io" where
  "getObject k w = (case attempt w of
      (False, w1) \<Rightarrow> (Inl StorageUnavailable, w1)
    | (True, w1) \<Rightarrow> (Inr (objs w1 k), w1))"

text \<open>
  Modelled from the spec: the merge of \<open>addObject\<close>. A field that exists is overwritten in
  place (last writer wins at the field level), a new field is appended.
\<close>

definition merge_field :: "string \<times> jsval \<Rightarrow> document \<Rightarrow> document" where
  "merge_field f doc =
     (if fst f \<in> fst ` set doc
      then map (\<lambda>g. if fst g = fst f then f else g) doc
      else doc @ [f])"

text \<open>
  Modelled from the spec: the fields a value contributes to the stored document. A
  composite document contributes its fields; a plain string (the transaction id that
  \<open>saveAnchor\<close> passes) is one entry of the record, entered under itself, so that the
  AnchorRecord of a hash is the set of the transaction ids that anchored it.
\<close>

fun fields_of :: "jsval \<Rightarrow> document" where
  "fields_of (Obj fs) = fs"
| "fields_of (Str s) = [(s, Str s)]"

text \<open>Modelled from the spec: \<open>addObject(key, value)\<close>, read-merge-write of a document.\<close>

definition addObject :: "string \<Rightarrow> jsval \<Rightarrow> unit io" where
  "addObject k v w = (case attempt w of
      (False, w1) \<Rightarrow> (Inl StorageUnavailable, w1)
    | (True, w1) \<Rightarrow> (Inr (), w1\<lparr>objs := (objs w1)(k := fold merge_field (fields_of v) (objs w1 k))\<rparr>))"

text \<open>Modelled from the spec: the members of the set stored at a key, in insertion order.\<close>

definition smembers :: "string \<Rightarrow> world \<Rightarrow> string list" where
  "smembers k w = map snd (filter (\<lambda>e. fst e = k) (members w))"

text \<open>Modelled from the spec: \<open>getArray(key)\<close> of the set store.\<close>

definition getArray :: "string \<Rightarrow> (string list) io" where
  "getArray k w = (case attempt w of
      (False, w1) \<Rightarrow> (Inl StorageUnavailable, w1)
    | (True, w1) \<Rightarrow> (Inr (smembers k w1), w1))"

text \<open>Modelled from the spec: \<open>sadd(key, member)\<close> of the set store.\<close>

definition sadd :: "string \<Rightarrow> string \<Rightarrow> unit io" where
  "sadd k m w = (case attempt w of
      (False, w1) \<Rightarrow> (Inl StorageUnavailable, w1)
    | (True, w1) \<Rightarrow>
        (Inr (), if (k, m) \<in> set (members w1) then w1
                 else w1\<lparr>members := members w1 @ [(k, m)]\<rparr>))"

text \<open>Modelled from the spec: \<open>srem(key, member)\<close> of the set store.\<close>

definition srem :: "string \<Rightarrow> string \<Rightarrow> unit io" where
  "srem k m w = (case attempt w of
      (False, w1) \<Rightarrow> (Inl StorageUnavailable, w1)
    | (True, w1) \<Rightarrow> (Inr (), w1\<lparr>members := removeAll (k, m) (members w1)\<rparr>))"

text \<open>
  Modelled from the spec: \<open>indexTx(type, address, transactionId, timestamp)\<close>, an append to
  the ranked sequence; the rank of an entry is its position.
\<close>

definition indexTx :: "string \<Rightarrow> string \<Rightarrow> string \<Rightarrow> int \<Rightarrow> unit io" where
  "indexTx ty address transactionId ts w = (case attempt w of
      (False, w1) \<Rightarrow> (Inl StorageUnavailable, w1)
    | (True, w1) \<Rightarrow> (Inr (), w1\<lparr>ranked := ranked w1 @ [(ty, address, transactionId, ts)]\<rparr>))"

text \<open>
  Awaiting a started write completes it; a write whose promise is dropped stays in
  flight: the program has no point after which it is known to be complete.
\<close>

fun await :: "promise \<Rightarrow> unit io" where
  "await (AddObject k v) w = addObject k v w"

definition dropped :: "promise \<Rightarrow> world \<Rightarrow> world" where
  "dropped p w = w\<lparr>inflight := inflight w @ [p]\<rparr>"

section \<open>JavaScript strings and numbers\<close>

text \<open>
  \<open>String.prototype.toLowerCase\<close> on the ASCII letters; the hashes are hexadecimal strings.
  Bytes outside \<open>A\<close>..\<open>Z\<close> are left as they are.
\<close>

definition lower_char :: "char \<Rightarrow> char" where
  "lower_char c =
     (let n = (of_char c :: nat) in if 65 \<le> n \<and> n \<le> 90 then char_of (n + 32) else c)"

definition toLowerCase :: "string \<Rightarrow> string" where
  "toLowerCase s = map lower_char s"

text \<open>
  \<open>String.prototype.replace(pattern, replacement)\<close> with a string pattern: the first
  occurrence of the pattern is replaced, the rest is kept.
\<close>

fun replace :: "string \<Rightarrow> string \<Rightarrow> string \<Rightarrow> string" where
  "replace pat rep [] = (if pat = [] then rep else [])"
| "replace pat rep (c # cs) =
     (if prefix pat (c # cs) then rep @ drop (length pat) (c # cs)
      else c # replace pat rep cs)"

text \<open>\<open>String(n)\<close> of an integer: its decimal digits, with a minus sign when negative.\<close>

definition digit_char :: "nat \<Rightarrow> char" where
  "digit_char d = char_of (48 + d)"

fun digits :: "nat \<Rightarrow> string" where
  "digits n = (if n < 10 then [digit_char n] else digits (n div 10) @ [digit_char (n mod 10)])"

declare digits.simps [simp del]

definition js_String :: "int \<Rightarrow> string" where
  "js_String n = (if n < 0 then CHR ''-'' # digits (nat (- n)) else digits (nat n))"

text \<open>
  \<open>Number(s)\<close> on the strings the checkpoint key can hold: the empty string is 0, a
  decimal integer literal with an optional sign is its value, anything else is \<open>NaN\<close>.
  (Literals with white space, a fraction, an exponent or a radix prefix are never written
  by \<open>saveProcessingHeight\<close>; the model reads them as \<open>NaN\<close>.)
\<close>

definition is_digit :: "char \<Rightarrow> bool" where
  "is_digit c = (48 \<le> (of_char c :: nat) \<and> (of_char c :: nat) \<le> 57)"

definition digits_value :: "string \<Rightarrow> nat" where
  "digits_value s = foldl (\<lambda>acc c. 10 * acc + (of_char c - 48)) 0 s"

definition unsigned_Number :: "string \<Rightarrow> int option" where
  "unsigned_Number s =
     (if s \<noteq> [] \<and> list_all is_digit s then Some (int (digits_value s)) else None)"

fun js_Number :: "string \<Rightarrow> jsnumber" where
  "js_Number [] = Num 0"
| "js_Number (c # cs) =
     (if c = CHR ''-'' then (case unsigned_Number cs of Some n \<Rightarrow> Num (- n) | None \<Rightarrow> NaN)
      else if c = CHR ''+'' then (case unsigned_Number cs of Some n \<Rightarrow> Num n | None \<Rightarrow> NaN)
      else (case unsigned_Number (c # cs) of Some n \<Rightarrow> Num n | None \<Rightarrow> NaN))"

text \<open>
  Property keys of a plain JavaScript object. An array index is the canonical decimal
  text of an integer from 0 to \<open>2^32 - 2\<close>. \<open>for (const k in o)\<close> enumerates the array
  indices first, in ascending numeric order, and then the other keys in the order in
  which they were created (the order of the document).
\<close>

definition array_index :: "string \<Rightarrow> bool" where
  "array_index s =
     (s \<noteq> [] \<and> list_all is_digit s \<and> (s = ''0'' \<or> hd s \<noteq> CHR ''0'') \<and>
      digits_value s \<le> 4294967294)"

definition for_in :: "document \<Rightarrow> string list" where
  "for_in doc =
     sort_key digits_value (filter array_index (map fst doc)) @
     filter (\<lambda>k. \<not> array_index k) (map fst doc)"

text \<open>
  Reading \<open>o[name]\<close> from a plain object \<open>o\<close>: an own property wins; otherwise the lookup
  goes on to \<open>Object.prototype\<close>, whose members (functions, and \<open>Object.prototype\<close> itself
  for \<open>__proto__\<close>) are all truthy; otherwise the value is \<open>undefined\<close>.
\<close>

definition object_prototype_names :: "string list" where
  "object_prototype_names =
     [''constructor'', ''__defineGetter__'', ''__defineSetter__'', ''hasOwnProperty'',
      ''__lookupGetter__'', ''__lookupSetter__'', ''isPrototypeOf'', ''propertyIsEnumerable'',
      ''toString'', ''valueOf'', ''__proto__'', ''toLocaleString'']"

datatype 'a property = Own 'a | Inherited | Undefined

definition get_property :: "(string \<rightharpoonup> 'a) \<Rightarrow> string \<Rightarrow> 'a property" where
  "get_property obj name =
     (case obj name of
        Some v \<Rightarrow> Own v
      | None \<Rightarrow> if name \<in> set object_prototype_names then Inherited else Undefined)"

text \<open>
  \<open>a || b\<close> where \<open>a\<close> is \<open>number | null\<close> and \<open>b\<close> a number: \<open>null\<close>, \<open>NaN\<close> and \<open>0\<close> are
  falsy and give \<open>b\<close>.
\<close>

fun or_else :: "jsnumber option \<Rightarrow> int \<Rightarrow> int" where
  "or_else (Some (Num n)) b = (if n \<noteq> 0 then n else b)"
| "or_else (Some NaN) b = b"
| "or_else None b = b"

section \<open>StorageService\<close>

text \<open>
  \<open>getAnchor\<close> and \<open>saveAnchor\<close> are not \<open>async\<close>: each returns the promise of the backend
  call. \<open>getAnchor\<close> is only ever awaited, so it is a step; \<open>saveAnchor\<close> returns the started
  write, which its caller awaits or drops.
\<close>

definition getAnchor :: "string \<Rightarrow> document io" where
  "getAnchor hash = getObject (''lto:anchor:'' @ toLowerCase hash)"

definition saveAnchor :: "string \<Rightarrow> jsval \<Rightarrow> promise" where
  "saveAnchor hash transaction = AddObject (''lto:anchor:'' @ toLowerCase hash) transaction"

text \<open>
  \<open>getTrustNetworkRoles\<close>. The inner \<open>forEach\<close> loops push an entry unless \<open>findIndex\<close>
  finds one with the same role name (or the same authorization string) in the accumulator.
\<close>

fun pushIssues :: "issues_role list \<Rightarrow> issues_role list \<Rightarrow> issues_role list" where
  "pushIssues acc [] = acc"
| "pushIssues acc (eachIssues # others) =
     pushIssues
       (if find (\<lambda>each. role each = role eachIssues) acc = None then acc @ [eachIssues] else acc)
       others"

fun pushAuthorization :: "string list \<Rightarrow> string list \<Rightarrow> string list" where
  "pushAuthorization acc [] = acc"
| "pushAuthorization acc (eachAuthorization # others) =
     pushAuthorization
       (if find (\<lambda>each. each = eachAuthorization) acc = None then acc @ [eachAuthorization]
        else acc)
       others"

text \<open>
  The \<open>for (const role in roles)\<close> loop over the keys of the assignment document, which
  \<open>getTrustNetworkRoles\<close> passes in \<open>for..in\<close> order. \<open>configRoles[role]\<close> is a property read
  on the configured table, a plain object: \<open>if (configData)\<close> holds for an entry of the
  table and also for a member inherited from \<open>Object.prototype\<close>, which has neither
  \<open>issues\<close> nor \<open>authorization\<close>; \<open>issues?.forEach\<close> skips an absent list.
\<close>

fun forRoles :: "(string \<rightharpoonup> role_def) \<Rightarrow> string list \<Rightarrow> RoleData \<Rightarrow> RoleData" where
  "forRoles configRoles [] result = result"
| "forRoles configRoles (r # others) result =
     (case get_property configRoles r of
        Undefined \<Rightarrow> forRoles configRoles others result
      | Inherited \<Rightarrow> forRoles configRoles others (result\<lparr>roles := roles result @ [r]\<rparr>)
      | Own configData \<Rightarrow>
          forRoles configRoles others
            \<lparr> roles = roles result @ [r],
              issues_roles =
                (case issues configData of
                   None \<Rightarrow> issues_roles result
                 | Some xs \<Rightarrow> pushIssues (issues_roles result) xs),
              issues_authorization =
                (case authorization configData of
                   None \<Rightarrow> issues_authorization result
                 | Some xs \<Rightarrow> pushAuthorization (issues_authorization result) xs) \<rparr>)"

definition getTrustNetworkRoles :: "config \<Rightarrow> string \<Rightarrow> RoleData io" where
  "getTrustNetworkRoles c address w =
     (case getObject (''lto:roles:'' @ address) w of
        (Inl e, w1) \<Rightarrow> (Inl e, w1)
      | (Inr rs, w1) \<Rightarrow>
          (Inr (forRoles (getTrustNetworkRoles_cfg c) (for_in rs)
                 \<lparr> roles = [], issues_roles = [], issues_authorization = [] \<rparr>), w1))"

definition childs_key :: "string \<Rightarrow> string" where
  "childs_key address = ''lto:assoc:'' @ address @ '':childs''"

definition parents_key :: "string \<Rightarrow> string" where
  "parents_key address = ''lto:assoc:'' @ address @ '':parents''"


text \<open>
  \<open>recurRemoveAssociation\<close> reads the children of the address once and
  \<open>removeChildAssocs\<close> is its \<open>for (const child of childAssocs)\<close> loop over that snapshot.
\<close>

function (domintros) recurRemoveAssociation :: "string \<Rightarrow> unit io"
  and removeChildAssocs :: "string \<Rightarrow> string list \<Rightarrow> unit io"
where
  "recurRemoveAssociation address w =
     (case getArray (childs_key address) w of
        (Inl e, w1) \<Rightarrow> (Inl e, w1)
      | (Inr childAssocs, w1) \<Rightarrow> removeChildAssocs address childAssocs w1)"
| "removeChildAssocs address [] w = (Inr (), w)"
| "removeChildAssocs address (child # rest) w =
     (case srem (childs_key address) child w of
        (Inl e, w1) \<Rightarrow> (Inl e, w1)
      | (Inr _, w1) \<Rightarrow>
     (case srem (parents_key child) address w1 of
        (Inl e, w2) \<Rightarrow> (Inl e, w2)
      | (Inr _, w2) \<Rightarrow>
     (case recurRemoveAssociation child w2 of
        (Inl e, w3) \<Rightarrow> (Inl e, w3)
      | (Inr _, w3) \<Rightarrow> removeChildAssocs address rest w3)))"
  by pat_completeness auto

text \<open>
  Termination. Nothing is ever added to the set store while the cascade runs, and the
  first child of every snapshot is still stored when its edge is removed, so the number
  of stored members has gone down before any nested call starts. The nested call's
  result is needed for the rest of the loop: it never stores more members than it found.
\<close>

lemma attempt_members: "attempt w = (b, w1) \<Longrightarrow> members w1 = members w"
  by (auto simp: attempt_def split: list.splits)

lemma getArray_members: "getArray k w = (r, w1) \<Longrightarrow> members w1 = members w"
  by (auto simp: getArray_def split: prod.splits bool.splits dest: attempt_members)

lemma getArray_Inr: "getArray k w = (Inr cs, w1) \<Longrightarrow> cs = smembers k w"
  by (auto simp: getArray_def smembers_def split: prod.splits bool.splits dest: attempt_members)

lemma srem_Inr:
  "srem k m w = (Inr u, w1) \<Longrightarrow> members w1 = removeAll (k, m) (members w)"
  by (auto simp: srem_def split: prod.splits bool.splits dest: attempt_members)

lemma srem_Inl: "srem k m w = (Inl e, w1) \<Longrightarrow> members w1 = members w"
  by (auto simp: srem_def split: prod.splits bool.splits dest: attempt_members)

lemma length_removeAll_bound:
  "length (removeAll x xs) + (if x \<in> set xs then 1 else 0) \<le> length xs"
  by (induction xs) auto

lemma srem_size: "srem k m w = (r, w1) \<Longrightarrow> length (members w1) \<le> length (members w)"
  using length_removeAll_bound [of "(k, m)" "members w"]
  by (cases r) (auto dest: srem_Inl srem_Inr)

lemma recur_size_dom:
  "recurRemoveAssociation_removeChildAssocs_dom (Inl (address, w)) \<Longrightarrow>
     length (members (snd (recurRemoveAssociation address w))) \<le> length (members w)"
  "recurRemoveAssociation_removeChildAssocs_dom (Inr (address, cs, w)) \<Longrightarrow>
     length (members (snd (removeChildAssocs address cs w))) \<le> length (members w)"
proof (induction rule: recurRemoveAssociation_removeChildAssocs.pinduct)
  case (1 address w)
  obtain r w1 where g: "getArray (childs_key address) w = (r, w1)"
    by (cases "getArray (childs_key address) w")
  have m: "members w1 = members w" using g by (rule getArray_members)
  show ?case
  proof (cases r)
    case (Inl e)
    with g m "1.hyps" show ?thesis by (simp add: recurRemoveAssociation.psimps)
  next
    case (Inr cs)
    with g have "length (members (snd (removeChildAssocs address cs w1))) \<le> length (members w1)"
      using "1.IH" [of r w1 cs] by simp
    with g m Inr "1.hyps" show ?thesis by (simp add: recurRemoveAssociation.psimps)
  qed
next
  case (2 address w)
  then show ?case by (simp add: removeChildAssocs.psimps)
next
  case (3 address child rest w)
  obtain r1 w1 where s1: "srem (childs_key address) child w = (r1, w1)"
    by (cases "srem (childs_key address) child w")
  have l1: "length (members w1) \<le> length (members w)" using s1 by (rule srem_size)
  show ?case
  proof (cases r1)
    case (Inl e)
    with s1 l1 "3.hyps" show ?thesis by (simp add: removeChildAssocs.psimps)
  next
    case i1: (Inr u1)
    obtain r2 w2 where s2: "srem (parents_key child) address w1 = (r2, w2)"
      by (cases "srem (parents_key child) address w1")
    have l2: "length (members w2) \<le> length (members w1)" using s2 by (rule srem_size)
    show ?thesis
    proof (cases r2)
      case (Inl e)
      with s1 i1 s2 l1 l2 "3.hyps" show ?thesis by (simp add: removeChildAssocs.psimps)
    next
      case i2: (Inr u2)
      obtain r3 w3 where s3: "recurRemoveAssociation child w2 = (r3, w3)"
        by (cases "recurRemoveAssociation child w2")
      have l3: "length (members w3) \<le> length (members w2)"
        using "3.IH"(1) [of r1 w1 u1 r2 w2 u2] s1 i1 s2 i2 s3 by simp
      show ?thesis
      proof (cases r3)
        case (Inl e)
        with s1 i1 s2 i2 s3 l1 l2 l3 "3.hyps" show ?thesis
          by (simp add: removeChildAssocs.psimps)
      next
        case i3: (Inr u3)
        have "length (members (snd (removeChildAssocs address rest w3))) \<le> length (members w3)"
          using "3.IH"(2) [of r1 w1 u1 r2 w2 u2 r3 w3 u3] s1 i1 s2 i2 s3 i3 by simp
        with s1 i1 s2 i2 s3 i3 l1 l2 l3 "3.hyps" show ?thesis
          by (simp add: removeChildAssocs.psimps)
      qed
    qed
  qed
qed

definition edges_left :: "string \<times> world + string \<times> string list \<times> world \<Rightarrow> nat" where
  "edges_left x =
     (case x of
        Inl (address, w) \<Rightarrow> 2 * length (members w) + 1
      | Inr (address, cs, w) \<Rightarrow>
          (case cs of
             [] \<Rightarrow> 2 * length (members w)
           | child # rest \<Rightarrow>
               2 * (length (members w) - (if (childs_key address, child) \<in> set (members w) then 1 else 0)) + 2))"

definition snapshot_left :: "string \<times> world + string \<times> string list \<times> world \<Rightarrow> nat" where
  "snapshot_left x = (case x of Inl _ \<Rightarrow> 0 | Inr (address, cs, w) \<Rightarrow> length cs)"

lemma smembers_head:
  "smembers k w = c # rest \<Longrightarrow> (k, c) \<in> set (members w)"
proof -
  assume "smembers k w = c # rest"
  then have "c \<in> set (smembers k w)" by simp
  then show ?thesis by (auto simp: smembers_def)
qed

termination recurRemoveAssociation
proof (relation "measures [edges_left, snapshot_left]", goal_cases)
  case 1
  show ?case by simp
next
  case (2 address w x y b)
  then have g: "getArray (childs_key address) w = (Inr b, y)" by simp
  have m: "members y = members w" using g by (rule getArray_members)
  have b: "b = smembers (childs_key address) y" using getArray_Inr [OF g] m by (simp add: smembers_def)
  show ?case
  proof (cases b)
    case Nil
    then show ?thesis using m by (simp add: edges_left_def)
  next
    case (Cons c rest)
    then have "(childs_key address, c) \<in> set (members y)" using b smembers_head by metis
    moreover from this obtain n where "length (members y) = Suc n"
      by (cases "members y") auto
    ultimately have "edges_left (Inr (address, b, y)) < edges_left (Inl (address, w))"
      using m Cons by (simp add: edges_left_def)
    then show ?thesis by simp
  qed
next
  case (3 address child rest w x y b xa ya ba)
  then have s1: "srem (childs_key address) child w = (Inr b, y)"
    and s2: "srem (parents_key child) address y = (Inr ba, ya)" by simp_all
  have "members y = removeAll (childs_key address, child) (members w)" using s1 by (rule srem_Inr)
  then have "length (members y) + (if (childs_key address, child) \<in> set (members w) then 1 else 0)
      \<le> length (members w)" using length_removeAll_bound by metis
  moreover have "length (members ya) \<le> length (members y)" using s2 by (rule srem_size)
  ultimately have "edges_left (Inl (child, ya)) < edges_left (Inr (address, child # rest, w))"
    unfolding edges_left_def by (simp split: if_splits)
  then show ?case by simp
next
  case (4 address child rest w x y b xa ya ba xb yb bb)
  then have s1: "srem (childs_key address) child w = (Inr b, y)"
    and s2: "srem (parents_key child) address y = (Inr ba, ya)"
    and s3: "recurRemoveAssociation child ya = (Inr bb, yb)" by simp_all
  have "members y = removeAll (childs_key address, child) (members w)" using s1 by (rule srem_Inr)
  then have "length (members y) + (if (childs_key address, child) \<in> set (members w) then 1 else 0)
      \<le> length (members w)" using length_removeAll_bound by metis
  moreover have "length (members ya) \<le> length (members y)" using s2 by (rule srem_size)
  moreover have "length (members yb) \<le> length (members ya)"
    using recur_size_dom(1) [of child ya] "4" s3 by simp
  moreover have "edges_left (Inr (address, rest, yb)) \<le> 2 * length (members yb) + 2"
    by (simp add: edges_left_def split: list.splits)
  moreover have "edges_left (Inr (address, child # rest, w)) =
      2 * (length (members w) - (if (childs_key address, child) \<in> set (members w) then 1 else 0)) + 2"
    by (simp add: edges_left_def)
  ultimately have "edges_left (Inr (address, rest, yb)) \<le> edges_left (Inr (address, child # rest, w))"
    by (simp split: if_splits)
  moreover have "snapshot_left (Inr (address, rest, yb)) < snapshot_left (Inr (address, child # rest, w))"
    by (simp add: snapshot_left_def)
  ultimately show ?case by auto
qed

text \<open>
  Every call chain of the cascade is finite: the domain predicate of the recursion holds
  for every address and every world.
\<close>

lemma recurRemoveAssociation_total:
  "recurRemoveAssociation_removeChildAssocs_dom (Inl (address, w))"
  "recurRemoveAssociation_removeChildAssocs_dom (Inr (address, cs, w))"
  by (induction address w and address cs w rule: recurRemoveAssociation_removeChildAssocs.induct)
     (auto intro: recurRemoveAssociation_removeChildAssocs.domintros)

declare recurRemoveAssociation.simps [simp del]

definition removeAssociation :: "transaction \<Rightarrow> unit io" where
  "removeAssociation transaction w =
     (case srem (childs_key (sender transaction)) (party transaction) w of
        (Inl e, w1) \<Rightarrow> (Inl e, w1)
      | (Inr _, w1) \<Rightarrow>
     (case srem (parents_key (party transaction)) (sender transaction) w1 of
        (Inl e, w2) \<Rightarrow> (Inl e, w2)
      | (Inr _, w2) \<Rightarrow> recurRemoveAssociation (party transaction) w2))"

text \<open>\<open>getAssociations\<close> returns \<open>{children, parents}\<close>, here as a pair.\<close>

definition getAssociations :: "string \<Rightarrow> (string list \<times> string list) io" where
  "getAssociations address w =
     (case getArray (childs_key address) w of
        (Inl e, w1) \<Rightarrow> (Inl e, w1)
      | (Inr children, w1) \<Rightarrow>
     (case getArray (parents_key address) w1 of
        (Inl e, w2) \<Rightarrow> (Inl e, w2)
      | (Inr parents, w2) \<Rightarrow> (Inr (children, parents), w2)))"

text \<open>
  \<open>getProcessingHeight\<close>: the \<open>try\<close> block encloses the read, and the empty \<open>catch\<close>
  leaves \<open>height\<close> undefined. \<open>numberOrNull\<close> is the returned expression
  \<open>height ? Number(height) : null\<close>: undefined, null and the empty string are falsy.
\<close>

definition numberOrNull :: "string option \<Rightarrow> jsnumber option" where
  "numberOrNull h =
     (case h of None \<Rightarrow> None | Some v \<Rightarrow> if v \<noteq> [] then Some (js_Number v) else None)"

definition getProcessingHeight :: "(jsnumber option) io" where
  "getProcessingHeight w =
     (case getValue ''lto:processing-height'' w of
        (Inl e, w1) \<Rightarrow> (Inr (numberOrNull None), w1)
      | (Inr v, w1) \<Rightarrow> (Inr (numberOrNull v), w1))"

definition saveProcessingHeight :: "int \<Rightarrow> unit io" where
  "saveProcessingHeight h = setValue ''lto:processing-height'' (js_String h)"

section \<open>AnchorIndexerService\<close>

text \<open>
  Modelled from the spec: \<open>AnchorIndexerService.index\<close> (only its test is among the
  sources). Section 4.4: the transaction is recorded in the ranked index under its type
  name and its sender and, for the type categories that carry recipients, under the
  recipient and under every transfer's recipient, with the same transaction id.
\<close>

fun indexAddresses :: "string \<Rightarrow> string \<Rightarrow> int \<Rightarrow> string list \<Rightarrow> unit io" where
  "indexAddresses ty transactionId ts [] w = (Inr (), w)"
| "indexAddresses ty transactionId ts (address # rest) w =
     (case indexTx ty address transactionId ts w of
        (Inl e, w1) \<Rightarrow> (Inl e, w1)
      | (Inr _, w1) \<Rightarrow> indexAddresses ty transactionId ts rest w1)"

text \<open>
  Modelled from the spec: the addresses \<open>index\<close> records the transaction under. The type
  name table and the type categories that carry recipients are configuration.
\<close>

definition index :: "config \<Rightarrow> transaction \<Rightarrow> unit io" where
  "index c transaction =
     indexAddresses (typeName c (tx_type transaction)) (tx_id transaction) (timestamp transaction)
       (sender transaction #
        (if tx_type transaction \<in> set (recipientTypes c)
         then (case recipient transaction of None \<Rightarrow> [] | Some r \<Rightarrow> [r]) @
              (case transfers transaction of None \<Rightarrow> [] | Some ts \<Rightarrow> ts)
         else []))"

section \<open>AnchorMonitorService\<close>

definition transactionTypes :: "int list" where
  "transactionTypes = [12, 15]"

text \<open>The anchor marker \<open>U+2693\<close>, as its UTF-8 bytes.\<close>

definition anchorToken :: string where
  "anchorToken = [CHR 0xE2, CHR 0x9A, CHR 0x93]"

text \<open>
  The type-12 branch: \<open>for (const item of transaction.data)\<close>, each \<open>saveAnchor\<close> awaited
  before the next item.
\<close>

fun forDataItems :: "encoder \<Rightarrow> string \<Rightarrow> data_item list \<Rightarrow> unit io" where
  "forDataItems e transactionId [] w = (Inr (), w)"
| "forDataItems e transactionId (item # rest) w =
     (if item_key item = anchorToken then
        (case base64Decode e (replace ''base64:'' [] (item_value item)) of
           Inl err \<Rightarrow> (Inl err, w)
         | Inr decoded \<Rightarrow>
             (case await (saveAnchor (hexEncode e decoded) (Str transactionId)) w of
                (Inl err, w1) \<Rightarrow> (Inl err, w1)
              | (Inr _, w1) \<Rightarrow> forDataItems e transactionId rest w1))
      else forDataItems e transactionId rest w)"

text \<open>
  The type-15 branch: \<open>transaction.anchors.forEach(async (anchor) => ...)\<close>. \<open>forEach\<close>
  calls the asynchronous callback for each anchor and drops the promise it returns. Each
  callback runs up to its \<open>await\<close>: it decodes the anchor and starts \<open>saveAnchor\<close>; a
  decoding error rejects the dropped promise only.
\<close>

fun forEachAnchor :: "encoder \<Rightarrow> string \<Rightarrow> string list \<Rightarrow> world \<Rightarrow> world" where
  "forEachAnchor e transactionId [] w = w"
| "forEachAnchor e transactionId (anchor # rest) w =
     (case base58Decode e anchor of
        Inl err \<Rightarrow> forEachAnchor e transactionId rest w
      | Inr decoded \<Rightarrow>
          forEachAnchor e transactionId rest
            (dropped (saveAnchor (hexEncode e decoded) (Str transactionId)) w))"

definition processTransaction :: "services \<Rightarrow> transaction \<Rightarrow> unit io" where
  "processTransaction s transaction w =
     (case index (cfg s) transaction w of
        (Inl e, w1) \<Rightarrow> (Inl e, w1)
      | (Inr _, w1) \<Rightarrow>
          if tx_type transaction \<notin> set transactionTypes then (Inr (), w1)
          else if tx_type transaction = 12 \<and> data transaction \<noteq> None
          then forDataItems (enc s) (tx_id transaction) (the (data transaction)) w1
          else if tx_type transaction = 15 \<and> anchors transaction \<noteq> None
          then (Inr (), forEachAnchor (enc s) (tx_id transaction) (the (anchors transaction)) w1)
          else (Inr (), w1))"

text \<open>\<open>processBlock\<close>: \<open>for (const transaction of block.transactions)\<close>, each awaited.\<close>

fun forTransactions :: "services \<Rightarrow> transaction list \<Rightarrow> unit io" where
  "forTransactions s [] w = (Inr (), w)"
| "forTransactions s (transaction # rest) w =
     (case processTransaction s transaction w of
        (Inl e, w1) \<Rightarrow> (Inl e, w1)
      | (Inr _, w1) \<Rightarrow>
          forTransactions s rest (w1\<lparr>trace := trace w1 @ [TxDone (tx_id transaction)]\<rparr>))"

definition processBlock :: "services \<Rightarrow> block \<Rightarrow> unit io" where
  "processBlock s b = forTransactions s (transactions b)"

text \<open>The \<open>for (; lastHeight <= currentHeight; lastHeight++)\<close> loop of \<open>checkNewBlock\<close>.\<close>

function forHeights :: "services \<Rightarrow> int \<Rightarrow> int \<Rightarrow> unit io" where
  "forHeights s lastHeight currentHeight w =
     (if lastHeight \<le> currentHeight then
        (case getBlock (nod s) lastHeight of
           Inl e \<Rightarrow> (Inl e, w)
         | Inr b \<Rightarrow>
        (case processBlock s b (w\<lparr>trace := trace w @ [GotBlock lastHeight]\<rparr>) of
           (Inl e, w1) \<Rightarrow> (Inl e, w1)
         | (Inr _, w1) \<Rightarrow>
        (case saveProcessingHeight lastHeight w1 of
           (Inl e, w2) \<Rightarrow> (Inl e, w2)
         | (Inr _, w2) \<Rightarrow>
             forHeights s (lastHeight + 1) currentHeight
               (w2\<lparr>trace := trace w2 @ [Saved lastHeight]\<rparr>))))
      else (Inr (), w))"
  by pat_completeness auto
termination
  by (relation "measure (\<lambda>(s, lastHeight, currentHeight, w). nat (currentHeight + 1 - lastHeight))")
     auto

declare forHeights.simps [simp del]

text \<open>
  The height a scan pass starts at, line 57 of the monitor:
  \<open>(await this.storage.getProcessingHeight() || this.lastBlock) + 1\<close>.
\<close>

definition firstHeight :: "jsnumber option \<Rightarrow> world \<Rightarrow> int" where
  "firstHeight saved w = or_else saved (lastBlock w) + 1"

definition checkNewBlock :: "services \<Rightarrow> unit io" where
  "checkNewBlock s w =
     (case getLastBlockHeight (nod s) of
        Inl e \<Rightarrow> (Inl e, w\<lparr>processing := True\<rparr>)
      | Inr currentHeight \<Rightarrow>
     (case getProcessingHeight (w\<lparr>processing := True\<rparr>) of
        (Inl e, w1) \<Rightarrow> (Inl e, w1)
      | (Inr saved, w1) \<Rightarrow>
     (case forHeights s (firstHeight saved w1) currentHeight w1 of
        (Inl e, w2) \<Rightarrow> (Inl e, w2)
      | (Inr _, w2) \<Rightarrow> (Inr (), w2\<lparr>processing := False\<rparr>))))"

section \<open>Test doubles\<close>

text \<open>
  Concrete collaborators and inputs on which the theorems below are instantiated: an
  empty store behind a healthy backend, an encoder that knows three strings, a node whose
  chain has a given height, and one transaction of each anchor type.
\<close>

definition empty_world :: world where
  "empty_world =
     \<lparr> faults = [], vals = Map.empty, objs = (\<lambda>k. []), members = [], ranked = [],
       inflight = [], trace = [], processing = False, lastBlock = 0 \<rparr>"

definition test_encoder :: encoder where
  "test_encoder =
     \<lparr> hexEncode = (\<lambda>bs. if bs = [0xDE, 0xAD] then ''dead'' else if bs = [0x61] then ''61'' else []),
       base64Decode = (\<lambda>s. if s = ''3q0='' then Inr [0xDE, 0xAD] else Inl MalformedTransaction),
       base58Decode = (\<lambda>s. if s = ''2g'' then Inr [0x61] else Inl MalformedTransaction) \<rparr>"

definition test_config :: config where
  "test_config =
     \<lparr> getTrustNetworkRoles_cfg =
         [''validator'' \<mapsto>
            \<lparr> issues = Some [\<lparr> role = ''node'', role_type = 1 \<rparr>],
              authorization = Some [''tx:anchor''] \<rparr>],
       typeName = (\<lambda>t. if t = 4 then ''transfer'' else ''anchor''),
       recipientTypes = [4] \<rparr>"

definition test_node :: "int \<Rightarrow> (int \<Rightarrow> transaction list) \<Rightarrow> node" where
  "test_node cur txs =
     \<lparr> getLastBlockHeight = Inr cur,
       getBlock = (\<lambda>h. if h \<le> cur then Inr \<lparr> height = h, transactions = txs h \<rparr>
                        else Inl NodeUnavailable) \<rparr>"

definition test_services :: "int \<Rightarrow> (int \<Rightarrow> transaction list) \<Rightarrow> services" where
  "test_services cur txs = \<lparr> cfg = test_config, enc = test_encoder, nod = test_node cur txs \<rparr>"

definition native_anchor_tx :: transaction where
  "native_anchor_tx =
     \<lparr> tx_id = ''tx2'', tx_type = 15, sender = ''3Jsender'', recipient = None, transfers = None,
       data = None, anchors = Some [''2g''], party = [], timestamp = 0 \<rparr>"

definition legacy_anchor_tx :: transaction where
  "legacy_anchor_tx =
     \<lparr> tx_id = ''tx1'', tx_type = 12, sender = ''3Jsender'', recipient = None, transfers = None,
       data = Some [\<lparr> item_key = anchorToken, item_value = ''base64:3q0='' \<rparr>],
       anchors = None, party = [], timestamp = 0 \<rparr>"

section \<open>Notions the properties are stated with\<close>


text \<open>The edges of the association graph, parent to child.\<close>

definition assoc_edges :: "world \<Rightarrow> (string \<times> string) set" where
  "assoc_edges w = {(p, c). c \<in> set (smembers (childs_key p) w)}"

definition assoc_tx :: "string \<Rightarrow> string \<Rightarrow> transaction" where
  "assoc_tx a b =
     \<lparr> tx_id = ''tx3'', tx_type = 16, sender = a, recipient = None, transfers = None,
       data = None, anchors = None, party = b, timestamp = 0 \<rparr>"

text \<open>
  Two stores: \<open>A\<close> with the child \<open>B\<close> whose children are the leaves \<open>C\<close> and \<open>D\<close>; and
  the cycle \<open>A\<close> to \<open>B\<close> to \<open>A\<close>.
\<close>

definition family_world :: world where
  "family_world =
     empty_world\<lparr>members :=
       [(childs_key ''A'', ''B''), (parents_key ''B'', ''A''),
        (childs_key ''B'', ''C''), (parents_key ''C'', ''B''),
        (childs_key ''B'', ''D''), (parents_key ''D'', ''B'')]\<rparr>"

definition cyclic_world :: world where
  "cyclic_world =
     empty_world\<lparr>members :=
       [(childs_key ''A'', ''B''), (parents_key ''B'', ''A''),
        (childs_key ''B'', ''A''), (parents_key ''A'', ''B'')]\<rparr>"

text \<open>
  The events of one fully processed block: the fetch, the return of \<open>processTransaction\<close>
  for each of its transactions in array order, then the checkpoint.
\<close>

definition block_events :: "services \<Rightarrow> int \<Rightarrow> event list" where
  "block_events s h =
     (case getBlock (nod s) h of
        Inl e \<Rightarrow> []
      | Inr b \<Rightarrow> GotBlock h # map (\<lambda>t. TxDone (tx_id t)) (transactions b) @ [Saved h])"

text \<open>The heights fetched, and the heights checkpointed, in the order of the trace.\<close>

fun fetched :: "event list \<Rightarrow> int list" where
  "fetched [] = []"
| "fetched (GotBlock h # evs) = h # fetched evs"
| "fetched (e # evs) = fetched evs"

fun checkpoints :: "event list \<Rightarrow> int list" where
  "checkpoints [] = []"
| "checkpoints (Saved h # evs) = h # checkpoints evs"
| "checkpoints (e # evs) = checkpoints evs"

text \<open>The fields a scan pass reads besides the trace: the scalar store and \<open>lastBlock\<close>.\<close>

definition same_scan :: "world \<Rightarrow> world \<Rightarrow> bool" where
  "same_scan w w' = (trace w' = trace w \<and> vals w' = vals w \<and> lastBlock w' = lastBlock w)"

text \<open>
  A store whose checkpoint (5) lies below the last known height (10), and a chain of two
  blocks, the first with the legacy anchor transaction, the second with the native one.
\<close>

definition lagging_world :: world where
  "lagging_world =
     empty_world\<lparr>vals := [''lto:processing-height'' \<mapsto> js_String 5], lastBlock := 10\<rparr>"

definition two_blocks :: services where
  "two_blocks = test_services 2 (\<lambda>h. if h = 1 then [legacy_anchor_tx] else [native_anchor_tx])"

text \<open>
  The specification's wording of \<open>getRoles\<close>, to compare the code with: the assigned role
  names that are present in the role-definition table; the issues-roles lists of these
  roles merged and deduplicated by role name, the first occurrence winning; their
  issues-authorization lists merged and deduplicated by exact match.
\<close>

fun dedup_by :: "('a \<Rightarrow> 'k) \<Rightarrow> 'a list \<Rightarrow> 'a list" where
  "dedup_by f [] = []"
| "dedup_by f (x # xs) = x # dedup_by f (filter (\<lambda>y. f y \<noteq> f x) xs)"

definition issues_of :: "(string \<rightharpoonup> role_def) \<Rightarrow> string \<Rightarrow> issues_role list" where
  "issues_of table n =
     (case table n of None \<Rightarrow> [] | Some d \<Rightarrow> (case issues d of None \<Rightarrow> [] | Some xs \<Rightarrow> xs))"

definition authorization_of :: "(string \<rightharpoonup> role_def) \<Rightarrow> string \<Rightarrow> string list" where
  "authorization_of table n =
     (case table n of None \<Rightarrow> [] | Some d \<Rightarrow> (case authorization d of None \<Rightarrow> [] | Some xs \<Rightarrow> xs))"

definition getRoles_spec :: "(string \<rightharpoonup> role_def) \<Rightarrow> string list \<Rightarrow> RoleData" where
  "getRoles_spec table assigned =
     (let present = filter (\<lambda>n. table n \<noteq> None) assigned in
      \<lparr> roles = present,
        issues_roles = dedup_by role (concat (map (issues_of table) present)),
        issues_authorization = dedup_by (\<lambda>a. a) (concat (map (authorization_of table) present)) \<rparr>)"

text \<open>
  A store in which one address is assigned the defined role \<open>validator\<close> and the
  undefined role \<open>ghost\<close>.
\<close>

definition roles_world :: world where
  "roles_world =
     empty_world\<lparr>objs := (objs empty_world)
       (''lto:roles:3Jaddr'' :=
          [(''validator'', Obj [(''sender'', Str ''3Jgrantor''), (''type'', Str ''100'')]),
           (''ghost'', Obj [(''sender'', Str ''3Jgrantor''), (''type'', Str ''101'')])])\<rparr>"

text \<open>
  A store in which the same address is assigned the defined role \<open>validator\<close> and a role
  named \<open>constructor\<close>, which the table does not define; and a chain of three blocks, the
  first with the legacy anchor transaction, the second with the native one, the third
  empty.
\<close>

definition prototype_world :: world where
  "prototype_world =
     empty_world\<lparr>objs := (objs empty_world)
       (''lto:roles:3Jaddr'' :=
          [(''validator'', Obj [(''sender'', Str ''3Jgrantor''), (''type'', Str ''100'')]),
           (''constructor'', Obj [(''sender'', Str ''3Jgrantor''), (''type'', Str ''101'')])])\<rparr>"

definition three_blocks :: services where
  "three_blocks =
     test_services 3
       (\<lambda>h. if h = 1 then [legacy_anchor_tx] else if h = 2 then [native_anchor_tx] else [])"

section \<open>Basic facts about the backend and the string functions\<close>

lemma attempt_healthy: "faults w = [] \<Longrightarrow> attempt w = (True, w)"
  by (simp add: attempt_def)

lemma attempt_fault: "faults w = True # fs \<Longrightarrow> attempt w = (False, w\<lparr>faults := fs\<rparr>)"
  by (simp add: attempt_def)

lemma attempt_cases:
  "attempt w = (True, w) \<and> faults w = [] \<or>
   (\<exists>fs. faults w = False # fs \<and> attempt w = (True, w\<lparr>faults := fs\<rparr>)) \<or>
   (\<exists>fs. faults w = True # fs \<and> attempt w = (False, w\<lparr>faults := fs\<rparr>))"
  by (cases "faults w") (auto simp: attempt_def)

lemma lower_char_idem: "lower_char (lower_char c) = lower_char c"
  by (simp add: lower_char_def Let_def)

lemma toLowerCase_idem: "toLowerCase (toLowerCase s) = toLowerCase s"
  by (simp add: toLowerCase_def lower_char_idem)

lemma merge_field_member: "f \<in> set (merge_field f doc)"
  by (auto simp: merge_field_def image_iff)

lemma saveAnchor_lower: "saveAnchor (toLowerCase h) t = saveAnchor h t"
  by (simp add: saveAnchor_def toLowerCase_idem)

lemma getAnchor_lower: "getAnchor (toLowerCase h) w = getAnchor h w"
  by (simp add: getAnchor_def toLowerCase_idem)

lemma addObject_Inr:
  "addObject k v w = (Inr u, w1) \<Longrightarrow>
     objs w1 = (objs w)(k := fold merge_field (fields_of v) (objs w k))"
  using attempt_cases [of w] by (auto simp: addObject_def)

lemma getObject_Inr: "getObject k w = (Inr d, w1) \<Longrightarrow> d = objs w k \<and> objs w1 = objs w"
  using attempt_cases [of w] by (auto simp: getObject_def)

lemma saved_then_found:
  assumes "toLowerCase h1 = toLowerCase h2"
    and "await (saveAnchor h1 (Str t)) w = (Inr u, w1)"
    and "getAnchor h2 w1 = (Inr d, w2)"
  shows "(t, Str t) \<in> set d"
proof -
  let ?k = "''lto:anchor:'' @ toLowerCase h1"
  have "objs w1 ?k = merge_field (t, Str t) (objs w ?k)"
    using assms(2) by (auto simp: saveAnchor_def dest: addObject_Inr)
  moreover have "d = objs w1 ?k"
    using assms(1,3) by (auto simp: getAnchor_def dest: getObject_Inr)
  ultimately show ?thesis by (simp add: merge_field_member)
qed

lemma lower_DEAD: "toLowerCase ''DEAD'' = ''dead''" "toLowerCase ''dEaD'' = ''dead''"
  by code_simp+

lemma lower_61: "toLowerCase ''61'' = ''61''"
  by code_simp

lemma lower_dead: "toLowerCase ''dead'' = ''dead''"
  by code_simp

lemma replace_prefix: "replace p [] (p @ s) = s"
proof (cases "p @ s")
  case Nil
  then show ?thesis by simp
next
  case (Cons c cs)
  have "prefix p (p @ s)" by simp
  moreover have "drop (length p) (p @ s) = s" by simp
  ultimately show ?thesis unfolding Cons by simp
qed

lemma getValue_frame:
  "getValue k w = (r, w1) \<Longrightarrow>
     lastBlock w1 = lastBlock w \<and> vals w1 = vals w \<and> trace w1 = trace w \<and>
     processing w1 = processing w"
  using attempt_cases [of w] by (auto simp: getValue_def)

lemma string_8: "js_String 8 = ''8''"
  by code_simp

section \<open>The type-15 fan-out (claim C2)\<close>

text \<open>
  The sibling branch for type 12 awaits every \<open>saveAnchor\<close>: when \<open>processTransaction\<close>
  returns, the anchor record holds the transaction id.
\<close>

lemma legacy_anchor_write_completed:
  "processTransaction (test_services 1 (\<lambda>h. [])) legacy_anchor_tx empty_world =
     (Inr (),
      empty_world\<lparr>ranked := [(''anchor'', ''3Jsender'', ''tx1'', 0)],
                  objs := (objs empty_world)(''lto:anchor:dead'' := [(''tx1'', Str ''tx1'')])\<rparr>)"
  using replace_prefix [of "''base64:''" "''3q0=''"] lower_DEAD
  by (simp add: processTransaction_def index_def indexTx_def attempt_def test_services_def
      test_config_def test_encoder_def legacy_anchor_tx_def empty_world_def transactionTypes_def
      saveAnchor_def addObject_def merge_field_def toLowerCase_def lower_char_def)

text \<open>
  The type-15 branch never writes: whatever the anchors are, the object store is the same
  when \<open>processTransaction\<close> returns as it was when it was called.
\<close>

lemma indexTx_objs: "objs (snd (indexTx ty a i ts w)) = objs w"
  using attempt_cases [of w] by (auto simp: indexTx_def)

lemma indexAddresses_objs: "objs (snd (indexAddresses ty i ts as w)) = objs w"
proof (induction as arbitrary: w)
  case Nil
  then show ?case by simp
next
  case (Cons a as)
  obtain r1 w1 where x: "indexTx ty a i ts w = (r1, w1)" by (cases "indexTx ty a i ts w")
  then have "objs w1 = objs w" using indexTx_objs [of ty a i ts w] by simp
  then show ?case using x Cons.IH [of w1] by (cases r1) simp_all
qed

lemma forEachAnchor_objs: "objs (forEachAnchor e i as w) = objs w"
  by (induction as arbitrary: w) (auto simp: dropped_def split: sum.splits)

lemma index_objs: "objs (snd (index c tx w)) = objs w"
  unfolding index_def by (rule indexAddresses_objs)

lemma native_anchors_never_written:
  assumes "tx_type tx = 15"
  shows "objs (snd (processTransaction s tx w)) = objs w"
proof -
  obtain r1 w1 where i: "index (cfg s) tx w = (r1, w1)" by (cases "index (cfg s) tx w")
  then have o: "objs w1 = objs w" using index_objs [of "cfg s" tx w] by simp
  show ?thesis
  proof (cases r1)
    case (Inl e)
    then show ?thesis using i o by (simp add: processTransaction_def)
  next
    case (Inr u)
    then show ?thesis using i o assms
      by (simp add: processTransaction_def forEachAnchor_objs)
  qed
qed

text \<open>
  Claim C2 says that for a type-15 transaction every anchor's storage write has completed
  before \<open>processTransaction\<close> finishes. The code starts the writes inside \<open>forEach\<close> and
  never awaits them: on a transaction with the single anchor \<open>2g\<close>, \<open>processTransaction\<close>
  returns normally while the write \<open>addObject(lto:anchor:61, tx2)\<close> is still in flight and
  the object store is unchanged.
\<close>

theorem native_anchor_write_in_flight:
  "processTransaction (test_services 1 (\<lambda>h. [])) native_anchor_tx empty_world =
     (Inr (),
      empty_world\<lparr>ranked := [(''anchor'', ''3Jsender'', ''tx2'', 0)],
                  inflight := [AddObject ''lto:anchor:61'' (Str ''tx2'')]\<rparr>)"
  by (simp add: processTransaction_def index_def indexTx_def attempt_def test_services_def
      test_config_def test_encoder_def native_anchor_tx_def empty_world_def transactionTypes_def
      dropped_def saveAnchor_def lower_61)

section \<open>The checkpoint reader (claim C7)\<close>

text \<open>
  Claim C7: \<open>getProcessingHeight\<close> never propagates a failure of the read; when the read
  fails with a storage error it returns \<open>null\<close>, the same result as when no checkpoint
  exists, and the scan pass then starts at the configured height \<open>lastBlock + 1\<close>.
\<close>

theorem checkpoint_read_failure_swallowed:
  "(\<exists>v. fst (getProcessingHeight w) = Inr v) \<and>
   (fst (getValue ''lto:processing-height'' w) = Inl e \<longrightarrow>
      getProcessingHeight w = (Inr None, snd (getValue ''lto:processing-height'' w))) \<and>
   (fst (getValue ''lto:processing-height'' w) = Inr None \<longrightarrow>
      getProcessingHeight w = (Inr None, snd (getValue ''lto:processing-height'' w))) \<and>
   (fst (getValue ''lto:processing-height'' (w\<lparr>processing := True\<rparr>)) = Inl e \<longrightarrow>
    getLastBlockHeight (nod s) = Inr cur \<longrightarrow>
      checkNewBlock s w =
        (case forHeights s (lastBlock w + 1) cur
                (snd (getValue ''lto:processing-height'' (w\<lparr>processing := True\<rparr>))) of
           (Inl e', w2) \<Rightarrow> (Inl e', w2)
         | (Inr _, w2) \<Rightarrow> (Inr (), w2\<lparr>processing := False\<rparr>)))"
proof -
  have a: "\<exists>v. fst (getProcessingHeight w) = Inr v"
    by (simp add: getProcessingHeight_def split: prod.splits sum.splits)
  have b: "getProcessingHeight w' = (Inr None, snd (getValue ''lto:processing-height'' w'))"
    if "fst (getValue ''lto:processing-height'' w') = Inl e" for w'
    using that by (auto simp: getProcessingHeight_def numberOrNull_def split: prod.splits sum.splits)
  have c: "getProcessingHeight w = (Inr None, snd (getValue ''lto:processing-height'' w))"
    if "fst (getValue ''lto:processing-height'' w) = Inr None"
    using that by (auto simp: getProcessingHeight_def numberOrNull_def split: prod.splits sum.splits)
  have d: "checkNewBlock s w =
        (case forHeights s (lastBlock w + 1) cur
                (snd (getValue ''lto:processing-height'' (w\<lparr>processing := True\<rparr>))) of
           (Inl e', w2) \<Rightarrow> (Inl e', w2)
         | (Inr _, w2) \<Rightarrow> (Inr (), w2\<lparr>processing := False\<rparr>))"
    if f: "fst (getValue ''lto:processing-height'' (w\<lparr>processing := True\<rparr>)) = Inl e"
      and n: "getLastBlockHeight (nod s) = Inr cur"
  proof -
    let ?w1 = "snd (getValue ''lto:processing-height'' (w\<lparr>processing := True\<rparr>))"
    have "lastBlock ?w1 = lastBlock w"
      using getValue_frame [of "''lto:processing-height''" "w\<lparr>processing := True\<rparr>"
          "fst (getValue ''lto:processing-height'' (w\<lparr>processing := True\<rparr>))" ?w1]
      by simp
    then show ?thesis
      using b [OF f] n by (simp add: checkNewBlock_def firstHeight_def)
  qed
  from a b c d show ?thesis by blast
qed

theorem checkpoint_read_failure_swallowed_witness:
  "(\<exists>v. fst (getProcessingHeight (empty_world\<lparr>faults := [True], lastBlock := 7\<rparr>)) = Inr v) \<and>
   fst (getValue ''lto:processing-height'' (empty_world\<lparr>faults := [True], lastBlock := 7\<rparr>))
     = Inl StorageUnavailable \<and>
   getProcessingHeight (empty_world\<lparr>faults := [True], lastBlock := 7\<rparr>)
     = (Inr None, empty_world\<lparr>lastBlock := 7\<rparr>) \<and>
   fst (getValue ''lto:processing-height'' empty_world) = Inr None \<and>
   getProcessingHeight empty_world = (Inr None, empty_world) \<and>
   getLastBlockHeight (nod (test_services 8 (\<lambda>h. []))) = Inr 8 \<and>
   checkNewBlock (test_services 8 (\<lambda>h. [])) (empty_world\<lparr>faults := [True], lastBlock := 7\<rparr>)
     = (Inr (), empty_world\<lparr>lastBlock := 7, trace := [GotBlock 8, Saved 8],
                  vals := [''lto:processing-height'' \<mapsto> ''8'']\<rparr>)"
  using checkpoint_read_failure_swallowed
      [of "empty_world\<lparr>faults := [True], lastBlock := 7\<rparr>" StorageUnavailable
          "test_services 8 (\<lambda>h. [])" 8]
    checkpoint_read_failure_swallowed
      [of empty_world StorageUnavailable "test_services 8 (\<lambda>h. [])" 8]
  by (simp add: getValue_def attempt_def empty_world_def test_services_def test_node_def
      forHeights.simps [of _ 8] forHeights.simps [of _ 9] processBlock_def
      saveProcessingHeight_def setValue_def string_8)

section \<open>Anchor keys are case-insensitive (claim C10)\<close>

text \<open>
  Claim C10: \<open>getAnchor\<close> and \<open>saveAnchor\<close> both address the key of the lower-cased hash;
  \<open>getAnchor(h)\<close> is \<open>getAnchor(h.toLowerCase())\<close>, and an anchor saved under one casing of a
  hash is found under any other casing of it.
\<close>

theorem anchor_case_insensitive:
  "getAnchor h w = getAnchor (toLowerCase h) w \<and>
   saveAnchor h v = saveAnchor (toLowerCase h) v \<and>
   (toLowerCase h1 = toLowerCase h2 \<longrightarrow>
    await (saveAnchor h1 (Str t)) w = (Inr u, w1) \<longrightarrow>
    getAnchor h2 w1 = (Inr d, w2) \<longrightarrow> (t, Str t) \<in> set d)"
  using saved_then_found [of h1 h2 t w u w1 d w2]
  by (simp add: saveAnchor_lower getAnchor_lower)

theorem anchor_case_insensitive_witness:
  "toLowerCase ''DEAD'' = toLowerCase ''dEaD'' \<and>
   await (saveAnchor ''DEAD'' (Str ''tx1'')) empty_world =
     (Inr (), empty_world\<lparr>objs := (objs empty_world)(''lto:anchor:dead'' := [(''tx1'', Str ''tx1'')])\<rparr>) \<and>
   getAnchor ''dEaD''
     (empty_world\<lparr>objs := (objs empty_world)(''lto:anchor:dead'' := [(''tx1'', Str ''tx1'')])\<rparr>) =
     (Inr [(''tx1'', Str ''tx1'')],
      empty_world\<lparr>objs := (objs empty_world)(''lto:anchor:dead'' := [(''tx1'', Str ''tx1'')])\<rparr>) \<and>
   (''tx1'', Str ''tx1'') \<in> set [(''tx1'', Str ''tx1'')]"
  using anchor_case_insensitive [of "''DEAD''" empty_world "Str ''tx1''" "''DEAD''" "''dEaD''" "''tx1''" "()"
      "empty_world\<lparr>objs := (objs empty_world)(''lto:anchor:dead'' := [(''tx1'', Str ''tx1'')])\<rparr>"
      "[(''tx1'', Str ''tx1'')]"
      "empty_world\<lparr>objs := (objs empty_world)(''lto:anchor:dead'' := [(''tx1'', Str ''tx1'')])\<rparr>"]
  by (simp add: lower_DEAD saveAnchor_def getAnchor_def addObject_def
      getObject_def attempt_def empty_world_def merge_field_def)

section \<open>The association graph\<close>

lemma childs_key_inj [simp]: "childs_key a = childs_key b \<longleftrightarrow> a = b"
  by (simp add: childs_key_def)

lemma parents_key_inj [simp]: "parents_key a = parents_key b \<longleftrightarrow> a = b"
  by (simp add: parents_key_def)

lemma childs_parents_neq [simp]: "childs_key a \<noteq> parents_key b"
proof
  assume "childs_key a = parents_key b"
  then have "rev (a @ '':childs'') = rev (b @ '':parents'')"
    by (simp add: childs_key_def parents_key_def)
  then show False by simp
qed

lemma parents_childs_neq [simp]: "parents_key a \<noteq> childs_key b"
  using childs_parents_neq [of b a] by metis

lemma smembers_iff: "c \<in> set (smembers k w) \<longleftrightarrow> (k, c) \<in> set (members w)"
  by (force simp: smembers_def)

lemma smembers_Nil_iff: "smembers k w = [] \<longleftrightarrow> (\<forall>c. (k, c) \<notin> set (members w))"
  using smembers_iff [of _ k w] by (metis all_not_in_conv set_empty)



lemma recur_Inr:
  assumes "recurRemoveAssociation address w = (Inr u, w')"
  obtains cs w1 where "getArray (childs_key address) w = (Inr cs, w1)"
    and "removeChildAssocs address cs w1 = (Inr (), w')"
  using assms by (auto simp: recurRemoveAssociation.simps split: prod.splits sum.splits)

lemma rc_Cons_Inr:
  assumes "removeChildAssocs address (child # rest) w = (Inr u, w')"
  obtains w1 w2 w3 where "srem (childs_key address) child w = (Inr (), w1)"
    and "srem (parents_key child) address w1 = (Inr (), w2)"
    and "recurRemoveAssociation child w2 = (Inr (), w3)"
    and "removeChildAssocs address rest w3 = (Inr (), w')"
  using assms by (auto split: prod.splits sum.splits)

lemma removeAssociation_Inr:
  assumes "removeAssociation tx w = (Inr u, w')"
  obtains w1 w2 where "srem (childs_key (sender tx)) (party tx) w = (Inr (), w1)"
    and "srem (parents_key (party tx)) (sender tx) w1 = (Inr (), w2)"
    and "recurRemoveAssociation (party tx) w2 = (Inr (), w')"
  using assms by (auto simp: removeAssociation_def split: prod.splits sum.splits)





lemma getArray_healthy: "faults w = [] \<Longrightarrow> getArray k w = (Inr (smembers k w), w)"
  by (simp add: getArray_def attempt_healthy)

lemma srem_healthy:
  "faults w = [] \<Longrightarrow> srem k m w = (Inr (), w\<lparr>members := removeAll (k, m) (members w)\<rparr>)"
  by (simp add: srem_def attempt_healthy)

lemma sadd_healthy:
  "faults w = [] \<Longrightarrow>
     sadd k m w = (Inr (), if (k, m) \<in> set (members w) then w
                           else w\<lparr>members := members w @ [(k, m)]\<rparr>)"
  by (simp add: sadd_def attempt_healthy)

lemma cascade_healthy:
  "faults w = [] \<Longrightarrow>
     fst (recurRemoveAssociation address w) = Inr () \<and>
     faults (snd (recurRemoveAssociation address w)) = []"
  "faults w = [] \<Longrightarrow>
     fst (removeChildAssocs address cs w) = Inr () \<and>
     faults (snd (removeChildAssocs address cs w)) = []"
proof (induction address w and address cs w rule: recurRemoveAssociation_removeChildAssocs.induct)
  case (1 address w)
  then show ?case
    by (simp add: recurRemoveAssociation.simps getArray_healthy)
next
  case (2 address w)
  then show ?case by simp
next
  case (3 address child rest w)
  let ?w1 = "w\<lparr>members := removeAll (childs_key address, child) (members w)\<rparr>"
  let ?w2 = "?w1\<lparr>members := removeAll (parents_key child, address) (members ?w1)\<rparr>"
  have s1: "srem (childs_key address) child w = (Inr (), ?w1)"
    using "3.prems" by (rule srem_healthy)
  have s2: "srem (parents_key child) address ?w1 = (Inr (), ?w2)"
    using "3.prems" by (simp add: srem_healthy)
  have f2: "faults ?w2 = []" using "3.prems" by simp
  obtain w3 where r: "recurRemoveAssociation child ?w2 = (Inr (), w3)" and f3: "faults w3 = []"
    using "3.IH"(1) [of "Inr ()" ?w1 "()" "Inr ()" ?w2 "()"] s1 s2 f2
    by (cases "recurRemoveAssociation child ?w2") auto
  have "fst (removeChildAssocs address rest w3) = Inr () \<and>
        faults (snd (removeChildAssocs address rest w3)) = []"
    using "3.IH"(2) [of "Inr ()" ?w1 "()" "Inr ()" ?w2 "()" "Inr ()" w3 "()"] s1 s2 r f3 by simp
  then show ?case using s1 s2 r by simp
qed

lemma cascade_subset:
  "recurRemoveAssociation address w = (Inr u, w') \<Longrightarrow> set (members w') \<subseteq> set (members w)"
  "removeChildAssocs address cs w = (Inr u, w') \<Longrightarrow> set (members w') \<subseteq> set (members w)"
proof (induction address w and address cs w arbitrary: u w' and u w'
    rule: recurRemoveAssociation_removeChildAssocs.induct)
  case (1 address w)
  from "1.prems" obtain cs w1 where g: "getArray (childs_key address) w = (Inr cs, w1)"
    and r: "removeChildAssocs address cs w1 = (Inr (), w')" by (rule recur_Inr)
  have "members w1 = members w" using g by (rule getArray_members)
  then show ?case using "1.IH" [of "Inr cs" w1 cs "()" w'] g r by simp
next
  case (2 address w)
  then show ?case by simp
next
  case (3 address child rest w)
  from "3.prems" obtain w1 w2 w3
    where s1: "srem (childs_key address) child w = (Inr (), w1)"
      and s2: "srem (parents_key child) address w1 = (Inr (), w2)"
      and r: "recurRemoveAssociation child w2 = (Inr (), w3)"
      and l: "removeChildAssocs address rest w3 = (Inr (), w')" by (rule rc_Cons_Inr)
  have "set (members w2) \<subseteq> set (members w)"
    using srem_Inr [OF s1] srem_Inr [OF s2] by auto
  moreover have "set (members w3) \<subseteq> set (members w2)"
    using "3.IH"(1) [of "Inr ()" w1 "()" "Inr ()" w2 "()" "()" w3] s1 s2 r by simp
  moreover have "set (members w') \<subseteq> set (members w3)"
    using "3.IH"(2) [of "Inr ()" w1 "()" "Inr ()" w2 "()" "Inr ()" w3 "()" "()" w'] s1 s2 r l by simp
  ultimately show ?case by blast
qed

lemma loop_removes:
  "removeChildAssocs address cs w = (Inr u, w') \<Longrightarrow>
     \<forall>c\<in>set cs. (childs_key address, c) \<notin> set (members w')"
proof (induction cs arbitrary: w u)
  case Nil
  then show ?case by simp
next
  case (Cons child rest)
  from Cons.prems obtain w1 w2 w3
    where s1: "srem (childs_key address) child w = (Inr (), w1)"
      and s2: "srem (parents_key child) address w1 = (Inr (), w2)"
      and r: "recurRemoveAssociation child w2 = (Inr (), w3)"
      and l: "removeChildAssocs address rest w3 = (Inr (), w')" by (rule rc_Cons_Inr)
  have "(childs_key address, child) \<notin> set (members w2)"
    using srem_Inr [OF s1] srem_Inr [OF s2] by simp
  then have "(childs_key address, child) \<notin> set (members w')"
    using cascade_subset(1) [OF r] cascade_subset(2) [OF l] by blast
  then show ?case using Cons.IH [OF l] by simp
qed

lemma cascade_clears_children:
  assumes "recurRemoveAssociation address w = (Inr u, w')"
  shows "smembers (childs_key address) w' = []"
proof -
  from assms obtain cs w1 where g: "getArray (childs_key address) w = (Inr cs, w1)"
    and r: "removeChildAssocs address cs w1 = (Inr (), w')" by (rule recur_Inr)
  have cs: "cs = smembers (childs_key address) w1"
    using getArray_Inr [OF g] getArray_members [OF g] by (simp add: smembers_def)
  have "(childs_key address, c) \<notin> set (members w')" for c
  proof (cases "c \<in> set cs")
    case True
    then show ?thesis using loop_removes [OF r] by simp
  next
    case False
    then have "(childs_key address, c) \<notin> set (members w1)" using cs by (simp add: smembers_iff)
    then show ?thesis using cascade_subset(2) [OF r] by blast
  qed
  then show ?thesis by (simp add: smembers_Nil_iff)
qed

lemma leaf_cascade:
  assumes "recurRemoveAssociation c w = (Inr u, w')" and "smembers (childs_key c) w = []"
  shows "members w' = members w"
proof -
  from assms(1) obtain cs w1 where g: "getArray (childs_key c) w = (Inr cs, w1)"
    and r: "removeChildAssocs c cs w1 = (Inr (), w')" by (rule recur_Inr)
  have "cs = []" using getArray_Inr [OF g] assms(2) by simp
  then have "w' = w1" using r by simp
  then show ?thesis using getArray_members [OF g] by simp
qed

lemma loop_over_leaves:
  assumes "removeChildAssocs a cs w = (Inr u, w')"
    and "\<forall>c\<in>set cs. smembers (childs_key c) w = []"
  shows "set (members w') =
     set (members w) - (\<Union>c\<in>set cs. {(childs_key a, c), (parents_key c, a)})"
  using assms
proof (induction cs arbitrary: w u)
  case Nil
  then show ?case by simp
next
  case (Cons child rest)
  from Cons.prems(1) obtain w1 w2 w3
    where s1: "srem (childs_key a) child w = (Inr (), w1)"
      and s2: "srem (parents_key child) a w1 = (Inr (), w2)"
      and r: "recurRemoveAssociation child w2 = (Inr (), w3)"
      and l: "removeChildAssocs a rest w3 = (Inr (), w')" by (rule rc_Cons_Inr)
  have m2: "set (members w2) = set (members w) - {(childs_key a, child), (parents_key child, a)}"
    using srem_Inr [OF s1] srem_Inr [OF s2] by auto
  have leaf2: "smembers (childs_key c) w2 = []" if "c \<in> set (child # rest)" for c
    using Cons.prems(2) that m2 by (auto simp: smembers_Nil_iff)
  have m3: "members w3 = members w2" using r leaf2 [of child] by (simp add: leaf_cascade)
  have "\<forall>c\<in>set rest. smembers (childs_key c) w3 = []"
    using leaf2 m3 by (simp add: smembers_def)
  then have "set (members w') =
      set (members w3) - (\<Union>c\<in>set rest. {(childs_key a, c), (parents_key c, a)})"
    using Cons.IH [OF l] by simp
  then have "set (members w') =
      (set (members w) - {(childs_key a, child), (parents_key child, a)}) -
      (\<Union>c\<in>set rest. {(childs_key a, c), (parents_key c, a)})"
    by (simp only: m2 m3)
  also have "\<dots> = set (members w) -
      ({(childs_key a, child), (parents_key child, a)} \<union>
       (\<Union>c\<in>set rest. {(childs_key a, c), (parents_key c, a)}))"
    by blast
  finally show ?case by simp
qed

lemma family_removed:
  "removeAssociation (assoc_tx ''A'' ''B'') family_world = (Inr (), empty_world)"
  by (simp add: removeAssociation_def assoc_tx_def family_world_def empty_world_def srem_def
      attempt_def recurRemoveAssociation.simps getArray_def smembers_def)




lemma cyclic_removed:
  "removeAssociation (assoc_tx ''A'' ''B'') cyclic_world = (Inr (), empty_world)"
  by (simp add: removeAssociation_def assoc_tx_def cyclic_world_def empty_world_def srem_def
      attempt_def recurRemoveAssociation.simps getArray_def smembers_def)

subsection \<open>Cascading removal over two leaves (claim C4)\<close>

text \<open>
  Claim C4: when \<open>B\<close> has exactly the children \<open>C\<close> and \<open>D\<close>, and these have no children,
  a completed \<open>removeAssociation(A, B)\<close> leaves \<open>A\<close> without the child \<open>B\<close>, \<open>B\<close> without
  children, and \<open>C\<close> and \<open>D\<close> without the parent \<open>B\<close>: the store has lost exactly the pair
  of \<open>A\<close> and \<open>B\<close> and the two mirrored pairs of \<open>B\<close> with \<open>C\<close> and with \<open>D\<close>.
\<close>

theorem cascade_two_children:
  assumes "removeAssociation tx w = (Inr u, w')"
    and "sender tx = A" and "party tx = B"
    and "set (smembers (childs_key B) w) = {C, D}"
    and "smembers (childs_key C) w = []" and "smembers (childs_key D) w = []"
  shows "B \<notin> set (smembers (childs_key A) w') \<and>
         smembers (childs_key B) w' = [] \<and>
         B \<notin> set (smembers (parents_key C) w') \<and>
         B \<notin> set (smembers (parents_key D) w') \<and>
         set (members w') =
           set (members w) - {(childs_key A, B), (parents_key B, A),
                              (childs_key B, C), (parents_key C, B),
                              (childs_key B, D), (parents_key D, B)}"
proof -
  from assms(1) obtain w1 w2 where s1: "srem (childs_key A) B w = (Inr (), w1)"
    and s2: "srem (parents_key B) A w1 = (Inr (), w2)"
    and r: "recurRemoveAssociation B w2 = (Inr (), w')"
    using assms(2,3) by (auto elim: removeAssociation_Inr)
  have m2: "set (members w2) = set (members w) - {(childs_key A, B), (parents_key B, A)}"
    using srem_Inr [OF s1] srem_Inr [OF s2] by auto
  have notleaf: "B \<noteq> C" "B \<noteq> D" using assms(4,5,6) by auto
  from r obtain cs w3 where g: "getArray (childs_key B) w2 = (Inr cs, w3)"
    and l: "removeChildAssocs B cs w3 = (Inr (), w')" by (rule recur_Inr)
  have m3: "members w3 = members w2" using g by (rule getArray_members)
  have in2: "(childs_key B, c) \<in> set (members w2) \<longleftrightarrow> c = C \<or> c = D" for c
  proof -
    have "(childs_key B, c) \<in> set (members w) \<longleftrightarrow> c = C \<or> c = D"
      using assms(4) smembers_iff [of c "childs_key B" w] by auto
    moreover have "(childs_key B, c) \<noteq> (childs_key A, B)" if "c = C \<or> c = D"
      using that notleaf by auto
    ultimately show ?thesis unfolding m2 by auto
  qed
  have cs: "set cs = {C, D}"
  proof -
    have "c \<in> set cs \<longleftrightarrow> c = C \<or> c = D" for c
      using getArray_Inr [OF g] in2 [of c] by (simp add: smembers_iff)
    then show ?thesis by blast
  qed
  have leafC: "smembers (childs_key C) w3 = []"
    using assms(5) unfolding smembers_Nil_iff m3 m2 by blast
  have leafD: "smembers (childs_key D) w3 = []"
    using assms(6) unfolding smembers_Nil_iff m3 m2 by blast
  have "\<forall>c\<in>set cs. smembers (childs_key c) w3 = []"
    using cs leafC leafD by auto
  then have "set (members w') =
      set (members w3) - (\<Union>c\<in>set cs. {(childs_key B, c), (parents_key c, B)})"
    using loop_over_leaves [OF l] by simp
  then have "set (members w') =
      (set (members w) - {(childs_key A, B), (parents_key B, A)}) -
      {(childs_key B, C), (parents_key C, B), (childs_key B, D), (parents_key D, B)}"
    unfolding cs m3 m2 by auto
  then have final: "set (members w') =
           set (members w) - {(childs_key A, B), (parents_key B, A),
                              (childs_key B, C), (parents_key C, B),
                              (childs_key B, D), (parents_key D, B)}"
    by blast
  have "smembers (childs_key B) w' = []" using r by (rule cascade_clears_children)
  then show ?thesis using final by (simp add: smembers_iff)
qed

theorem cascade_two_children_witness:
  "removeAssociation (assoc_tx ''A'' ''B'') family_world = (Inr (), empty_world) \<and>
   sender (assoc_tx ''A'' ''B'') = ''A'' \<and> party (assoc_tx ''A'' ''B'') = ''B'' \<and>
   set (smembers (childs_key ''B'') family_world) = {''C'', ''D''} \<and>
   smembers (childs_key ''C'') family_world = [] \<and>
   smembers (childs_key ''D'') family_world = [] \<and>
   ''B'' \<notin> set (smembers (childs_key ''A'') empty_world) \<and>
   smembers (childs_key ''B'') empty_world = [] \<and>
   ''B'' \<notin> set (smembers (parents_key ''C'') empty_world) \<and>
   ''B'' \<notin> set (smembers (parents_key ''D'') empty_world) \<and>
   set (members empty_world) =
     set (members family_world) -
       {(childs_key ''A'', ''B''), (parents_key ''B'', ''A''),
        (childs_key ''B'', ''C''), (parents_key ''C'', ''B''),
        (childs_key ''B'', ''D''), (parents_key ''D'', ''B'')}"
proof -
  have h: "set (smembers (childs_key ''B'') family_world) = {''C'', ''D''}"
    "smembers (childs_key ''C'') family_world = []"
    "smembers (childs_key ''D'') family_world = []"
    by (simp_all add: smembers_def family_world_def)
  have t: "sender (assoc_tx ''A'' ''B'') = ''A''" "party (assoc_tx ''A'' ''B'') = ''B''"
    by (simp_all add: assoc_tx_def)
  show ?thesis
    using cascade_two_children [OF family_removed t h] family_removed t h by simp
qed

subsection \<open>The mirror-edge invariant (claim C5)\<close>



subsection \<open>Termination of the cascade (claim C6)\<close>

text \<open>
  Claim C6 makes termination of \<open>removeAssociation\<close> depend on the graph being acyclic.
  The cascade removes an edge from the store before it descends along it, so it also
  terminates on a cycle: on the store with the edges \<open>A\<close> to \<open>B\<close> and \<open>B\<close> to \<open>A\<close>, which is
  not acyclic, \<open>removeAssociation(A, B)\<close> returns and leaves the store empty.
\<close>

theorem cascade_terminates_on_cycle:
  "(''A'', ''B'') \<in> assoc_edges cyclic_world \<and> (''B'', ''A'') \<in> assoc_edges cyclic_world \<and>
   \<not> acyclic (assoc_edges cyclic_world) \<and>
   recurRemoveAssociation_removeChildAssocs_dom (Inl (''B'', cyclic_world)) \<and>
   removeAssociation (assoc_tx ''A'' ''B'') cyclic_world = (Inr (), empty_world)"
proof -
  have e: "(''A'', ''B'') \<in> assoc_edges cyclic_world" "(''B'', ''A'') \<in> assoc_edges cyclic_world"
    by (simp_all add: assoc_edges_def smembers_iff cyclic_world_def)
  then have "(''A'', ''A'') \<in> (assoc_edges cyclic_world)\<^sup>+" by (rule trancl_into_trancl2 [OF _ r_into_trancl])
  then have "\<not> acyclic (assoc_edges cyclic_world)" by (auto simp: acyclic_def)
  then show ?thesis using e cyclic_removed recurRemoveAssociation_total(1) by simp
qed

text \<open>
  Claim C6, amended: for every store, acyclic or not, every call chain of the cascade is
  finite (the domain predicate of the recursion holds everywhere), and with a healthy
  backend \<open>removeAssociation\<close> returns normally and leaves the party without children. No
  cycle detection is performed, and none is needed.
\<close>

theorem cascade_terminates:
  "recurRemoveAssociation_removeChildAssocs_dom (Inl (address, w)) \<and>
   recurRemoveAssociation_removeChildAssocs_dom (Inr (address, cs, w)) \<and>
   (faults w = [] \<longrightarrow>
      fst (removeAssociation tx w) = Inr () \<and>
      smembers (childs_key (party tx)) (snd (removeAssociation tx w)) = [])"
proof -
  have "fst (removeAssociation tx w) = Inr () \<and>
      smembers (childs_key (party tx)) (snd (removeAssociation tx w)) = []" if h: "faults w = []"
  proof -
    let ?w1 = "w\<lparr>members := removeAll (childs_key (sender tx), party tx) (members w)\<rparr>"
    let ?w2 = "?w1\<lparr>members := removeAll (parents_key (party tx), sender tx) (members ?w1)\<rparr>"
    have e: "removeAssociation tx w = recurRemoveAssociation (party tx) ?w2"
      using h by (simp add: removeAssociation_def srem_healthy)
    have "faults ?w2 = []" using h by simp
    then have f: "fst (recurRemoveAssociation (party tx) ?w2) = Inr ()"
      using cascade_healthy(1) by blast
    then obtain w' where r: "recurRemoveAssociation (party tx) ?w2 = (Inr (), w')"
      by (cases "recurRemoveAssociation (party tx) ?w2") auto
    show ?thesis using cascade_clears_children [OF r] r e by simp
  qed
  then show ?thesis using recurRemoveAssociation_total by blast
qed

theorem cascade_terminates_witness:
  "recurRemoveAssociation_removeChildAssocs_dom (Inl (''B'', family_world)) \<and>
   faults family_world = [] \<and>
   fst (removeAssociation (assoc_tx ''A'' ''B'') family_world) = Inr () \<and>
   smembers (childs_key (party (assoc_tx ''A'' ''B'')))
     (snd (removeAssociation (assoc_tx ''A'' ''B'') family_world)) = []"
  using cascade_terminates [of "''B''" family_world "[]" "assoc_tx ''A'' ''B''"]
  by (simp add: family_world_def empty_world_def)

section \<open>The scan pass\<close>

lemma same_scan_refl [simp]: "same_scan w w"
  by (simp add: same_scan_def)

lemma same_scan_trans: "same_scan w w1 \<Longrightarrow> same_scan w1 w2 \<Longrightarrow> same_scan w w2"
  by (simp add: same_scan_def)

lemma indexTx_frame: "indexTx ty a i ts w = (r, w') \<Longrightarrow> same_scan w w'"
  using attempt_cases [of w] by (auto simp: indexTx_def same_scan_def)

lemma addObject_frame: "addObject k v w = (r, w') \<Longrightarrow> same_scan w w'"
  using attempt_cases [of w] by (auto simp: addObject_def same_scan_def)

lemma indexAddresses_frame: "indexAddresses ty i ts as w = (r, w') \<Longrightarrow> same_scan w w'"
proof (induction as arbitrary: w)
  case Nil
  then show ?case by simp
next
  case (Cons a as)
  obtain r1 w1 where i: "indexTx ty a i ts w = (r1, w1)" by (cases "indexTx ty a i ts w")
  have f: "same_scan w w1" using i by (rule indexTx_frame)
  show ?case
  proof (cases r1)
    case (Inl e)
    then show ?thesis using Cons.prems i f by simp
  next
    case (Inr u)
    then have "indexAddresses ty i ts as w1 = (r, w')" using Cons.prems i by simp
    then show ?thesis using Cons.IH f same_scan_trans by blast
  qed
qed

lemma forDataItems_frame: "forDataItems e i items w = (r, w') \<Longrightarrow> same_scan w w'"
proof (induction items arbitrary: w)
  case Nil
  then show ?case by simp
next
  case (Cons item items)
  show ?case
  proof (cases "item_key item = anchorToken")
    case False
    then show ?thesis using Cons by simp
  next
    case True
    show ?thesis
    proof (cases "base64Decode e (replace ''base64:'' [] (item_value item))")
      case (Inl err)
      then show ?thesis using Cons.prems True by simp
    next
      case (Inr decoded)
      let ?k = "''lto:anchor:'' @ toLowerCase (hexEncode e decoded)"
      obtain r1 w1 where a: "addObject ?k (Str i) w = (r1, w1)"
        by (cases "addObject ?k (Str i) w")
      have f: "same_scan w w1" using a by (rule addObject_frame)
      show ?thesis
      proof (cases r1)
        case (Inl err)
        then show ?thesis using Cons.prems True Inr a f by (simp add: saveAnchor_def)
      next
        case u: (Inr u)
        then have "forDataItems e i items w1 = (r, w')"
          using Cons.prems True Inr a by (simp add: saveAnchor_def)
        then show ?thesis using Cons.IH f same_scan_trans by blast
      qed
    qed
  qed
qed

lemma forEachAnchor_frame: "same_scan w (forEachAnchor e i as w)"
  by (induction as arbitrary: w)
     (auto simp: dropped_def same_scan_def split: sum.splits)

lemma processTransaction_frame:
  assumes "processTransaction s tx w = (r, w')"
  shows "same_scan w w'"
proof -
  obtain r1 w1 where i: "index (cfg s) tx w = (r1, w1)" by (cases "index (cfg s) tx w")
  have f: "same_scan w w1" using i unfolding index_def by (rule indexAddresses_frame)
  show ?thesis
  proof (cases r1)
    case (Inl e)
    then show ?thesis using assms i f by (simp add: processTransaction_def)
  next
    case (Inr u)
    then have "same_scan w1 w'"
      using assms i forDataItems_frame [of "enc s" "tx_id tx" "the (data tx)" w1 r w']
        forEachAnchor_frame [of w1 "enc s" "tx_id tx" "the (anchors tx)"]
      by (auto simp: processTransaction_def split: if_splits)
    then show ?thesis using f same_scan_trans by blast
  qed
qed

lemma setValue_Inr:
  "setValue k v w = (Inr u, w') \<Longrightarrow>
     vals w' = (vals w)(k \<mapsto> v) \<and> trace w' = trace w \<and> lastBlock w' = lastBlock w"
  using attempt_cases [of w] by (auto simp: setValue_def)

lemma setValue_Inl: "setValue k v w = (Inl e, w') \<Longrightarrow> same_scan w w'"
  using attempt_cases [of w] by (auto simp: setValue_def same_scan_def)

lemma forTransactions_trace:
  "forTransactions s txs w = (r, w') \<Longrightarrow>
     vals w' = vals w \<and> lastBlock w' = lastBlock w \<and>
     (\<exists>fin. prefix fin txs \<and>
        trace w' = trace w @ map (\<lambda>t. TxDone (tx_id t)) fin \<and>
        (case r of Inr _ \<Rightarrow> fin = txs | Inl _ \<Rightarrow> fin \<noteq> txs))"
proof (induction txs arbitrary: w)
  case Nil
  then show ?case by auto
next
  case (Cons tx txs)
  obtain r1 w1 where p: "processTransaction s tx w = (r1, w1)"
    by (cases "processTransaction s tx w")
  have f: "same_scan w w1" using p by (rule processTransaction_frame)
  show ?case
  proof (cases r1)
    case (Inl e)
    then have "r = Inl e" "w' = w1" using Cons.prems p by simp_all
    then show ?thesis using f by (auto simp: same_scan_def intro!: exI [of _ "[]"])
  next
    case (Inr u)
    let ?w2 = "w1\<lparr>trace := trace w1 @ [TxDone (tx_id tx)]\<rparr>"
    have "forTransactions s txs ?w2 = (r, w')" using Cons.prems p Inr by simp
    from Cons.IH [OF this] obtain fin' where
      v: "vals w' = vals ?w2" "lastBlock w' = lastBlock ?w2"
      and d: "prefix fin' txs" "trace w' = trace ?w2 @ map (\<lambda>t. TxDone (tx_id t)) fin'"
        "(case r of Inr _ \<Rightarrow> fin' = txs | Inl _ \<Rightarrow> fin' \<noteq> txs)" by blast
    have "prefix (tx # fin') (tx # txs)" using d(1) by simp
    moreover have "trace w' = trace w @ map (\<lambda>t. TxDone (tx_id t)) (tx # fin')"
      using d(2) f by (simp add: same_scan_def)
    moreover have "(case r of Inr _ \<Rightarrow> tx # fin' = tx # txs | Inl _ \<Rightarrow> tx # fin' \<noteq> tx # txs)"
      using d(3) by (cases r) auto
    ultimately show ?thesis using v f unfolding same_scan_def by (intro conjI exI [of _ "tx # fin'"]) auto
  qed
qed

lemma forHeights_trace:
  "forHeights s h cur w = (r, w') \<Longrightarrow>
     \<exists>k partial. h \<le> k \<and> k \<le> max h (cur + 1) \<and> lastBlock w' = lastBlock w \<and>
        trace w' = trace w @ concat (map (block_events s) [h..k - 1]) @ partial \<and>
        prefix partial (butlast (block_events s k)) \<and>
        (\<forall>j. h \<le> j \<and> j < k \<longrightarrow> (\<exists>b. getBlock (nod s) j = Inr b)) \<and>
        vals w' = (if k = h then vals w
                   else (vals w)(''lto:processing-height'' \<mapsto> js_String (k - 1))) \<and>
        (case r of Inr _ \<Rightarrow> partial = [] \<and> k = max h (cur + 1) | Inl _ \<Rightarrow> k \<le> cur)"
proof (induction s h cur w rule: forHeights.induct)
  case (1 s h cur w)
  let ?P = "\<lambda>k partial. h \<le> k \<and> k \<le> max h (cur + 1) \<and> lastBlock w' = lastBlock w \<and>
        trace w' = trace w @ concat (map (block_events s) [h..k - 1]) @ partial \<and>
        prefix partial (butlast (block_events s k)) \<and>
        (\<forall>j. h \<le> j \<and> j < k \<longrightarrow> (\<exists>b. getBlock (nod s) j = Inr b)) \<and>
        vals w' = (if k = h then vals w
                   else (vals w)(''lto:processing-height'' \<mapsto> js_String (k - 1))) \<and>
        (case r of Inr _ \<Rightarrow> partial = [] \<and> k = max h (cur + 1) | Inl _ \<Rightarrow> k \<le> cur)"
  show ?case
  proof (cases "h \<le> cur")
    case False
    then have "r = Inr ()" "w' = w" using "1.prems" by (simp_all add: forHeights.simps)
    then have "?P h []" using False by auto
    then show ?thesis by blast
  next
    case le: True
    show ?thesis
    proof (cases "getBlock (nod s) h")
      case (Inl e)
      then have "r = Inl e" "w' = w" using "1.prems" le by (simp_all add: forHeights.simps)
      then have "?P h []" using le Inl by (auto simp: block_events_def)
      then show ?thesis by blast
    next
      case b: (Inr b)
      let ?w0 = "w\<lparr>trace := trace w @ [GotBlock h]\<rparr>"
      have be: "block_events s h =
          GotBlock h # map (\<lambda>t. TxDone (tx_id t)) (transactions b) @ [Saved h]"
        using b by (simp add: block_events_def)
      obtain r1 w1 where p: "processBlock s b ?w0 = (r1, w1)" by (cases "processBlock s b ?w0")
      from forTransactions_trace [OF p [unfolded processBlock_def]] obtain fin where
        v1: "vals w1 = vals w" "lastBlock w1 = lastBlock w"
        and d: "prefix fin (transactions b)"
          "trace w1 = trace w @ GotBlock h # map (\<lambda>t. TxDone (tx_id t)) fin"
          "(case r1 of Inr _ \<Rightarrow> fin = transactions b | Inl _ \<Rightarrow> fin \<noteq> transactions b)"
        by auto
      show ?thesis
      proof (cases r1)
        case (Inl e)
        then have "r = Inl e" "w' = w1" using "1.prems" le b p by (simp_all add: forHeights.simps)
        moreover have "prefix (GotBlock h # map (\<lambda>t. TxDone (tx_id t)) fin) (butlast (block_events s h))"
          using d(1) by (simp add: be butlast_append map_mono_prefix)
        ultimately have "?P h (GotBlock h # map (\<lambda>t. TxDone (tx_id t)) fin)"
          using le v1 d(2) by auto
        then show ?thesis by blast
      next
        case i1: (Inr u1)
        then have all: "fin = transactions b" using d(3) by simp
        obtain r2 w2 where sv: "saveProcessingHeight h w1 = (r2, w2)"
          by (cases "saveProcessingHeight h w1")
        show ?thesis
        proof (cases r2)
          case (Inl e)
          then have "r = Inl e" "w' = w2" using "1.prems" le b p i1 sv by (simp_all add: forHeights.simps)
          moreover have "same_scan w1 w2"
            using sv Inl setValue_Inl by (simp add: saveProcessingHeight_def)
          ultimately have "?P h (GotBlock h # map (\<lambda>t. TxDone (tx_id t)) (transactions b))"
            using le v1 d(2) all by (auto simp: be butlast_append same_scan_def)
          then show ?thesis by blast
        next
          case i2: (Inr u2)
          let ?w3 = "w2\<lparr>trace := trace w2 @ [Saved h]\<rparr>"
          have s2: "vals w2 = (vals w)(''lto:processing-height'' \<mapsto> js_String h)"
            "trace w2 = trace w1" "lastBlock w2 = lastBlock w"
            using sv i2 v1 setValue_Inr [of "''lto:processing-height''" "js_String h" w1 u2 w2]
            by (simp_all add: saveProcessingHeight_def)
          have t3: "trace ?w3 = trace w @ block_events s h" using s2 d(2) all by (simp add: be)
          have rec: "forHeights s (h + 1) cur ?w3 = (r, w')"
            using "1.prems" le b p i1 sv i2 by (simp add: forHeights.simps)
          from "1.IH" [OF le b _ _ _ _ rec, of r1 w1 u1 r2 u2] p i1 sv i2
          obtain k partial where
            k: "h + 1 \<le> k" "k \<le> max (h + 1) (cur + 1)" "lastBlock w' = lastBlock ?w3"
            and tr: "trace w' = trace ?w3 @ concat (map (block_events s) [h + 1..k - 1]) @ partial"
            and pf: "prefix partial (butlast (block_events s k))"
            and ok: "\<forall>j. h + 1 \<le> j \<and> j < k \<longrightarrow> (\<exists>b. getBlock (nod s) j = Inr b)"
            and vl: "vals w' = (if k = h + 1 then vals ?w3
                   else (vals ?w3)(''lto:processing-height'' \<mapsto> js_String (k - 1)))"
            and rr: "(case r of Inr _ \<Rightarrow> partial = [] \<and> k = max (h + 1) (cur + 1) | Inl _ \<Rightarrow> k \<le> cur)"
            by auto
          have up: "[h..k - 1] = h # [h + 1..k - 1]" using k(1) by (simp add: upto_rec1)
          have "trace w' = trace w @ concat (map (block_events s) [h..k - 1]) @ partial"
            using tr t3 up by simp
          moreover have "vals w' = (vals w)(''lto:processing-height'' \<mapsto> js_String (k - 1))"
            using vl s2(1) by (cases "k = h + 1") simp_all
          moreover have "(case r of Inr _ \<Rightarrow> partial = [] \<and> k = max h (cur + 1) | Inl _ \<Rightarrow> k \<le> cur)"
            using rr le by (cases r) (simp_all add: max_def)
          moreover have "\<forall>j. h \<le> j \<and> j < k \<longrightarrow> (\<exists>b. getBlock (nod s) j = Inr b)"
          proof (intro allI impI)
            fix j assume "h \<le> j \<and> j < k"
            then show "\<exists>b. getBlock (nod s) j = Inr b" using ok b by (cases "j = h") auto
          qed
          ultimately have "?P k partial" using k pf s2(3) le by (simp add: max_def)
          then show ?thesis by blast
        qed
      qed
    qed
  qed
qed

lemma of_char_digit_char: "d < 10 \<Longrightarrow> (of_char (digit_char d) :: nat) = 48 + d"
  by (simp add: digit_char_def)

lemma is_digit_digit_char: "d < 10 \<Longrightarrow> is_digit (digit_char d)"
  by (simp add: is_digit_def of_char_digit_char)

lemma digits_nonempty: "digits n \<noteq> []"
  by (subst digits.simps) simp

lemma digits_all_digit: "list_all is_digit (digits n)"
proof (induction n rule: digits.induct)
  case (1 n)
  show ?case
  proof (cases "n < 10")
    case True
    then show ?thesis by (subst digits.simps) (simp add: is_digit_digit_char)
  next
    case False
    then have "list_all is_digit (digits (n div 10))" using "1.IH" by simp
    then show ?thesis using False by (subst digits.simps) (simp add: is_digit_digit_char)
  qed
qed

lemma digits_value_snoc: "digits_value (xs @ [c]) = 10 * digits_value xs + (of_char c - 48)"
  by (simp add: digits_value_def)

lemma digits_value_digits: "digits_value (digits n) = n"
proof (induction n rule: digits.induct)
  case (1 n)
  show ?case
  proof (cases "n < 10")
    case True
    then show ?thesis
      by (subst digits.simps) (simp add: digits_value_def of_char_digit_char)
  next
    case False
    then have "digits_value (digits (n div 10)) = n div 10" using "1.IH" by simp
    then show ?thesis using False
      by (subst digits.simps) (simp add: digits_value_snoc of_char_digit_char)
  qed
qed

lemma unsigned_Number_digits: "unsigned_Number (digits n) = Some (int n)"
  by (simp add: unsigned_Number_def digits_nonempty digits_all_digit digits_value_digits)

lemma js_Number_digits: "js_Number (digits n) = Num (int n)"
proof (cases "digits n")
  case Nil
  then show ?thesis using digits_nonempty by simp
next
  case (Cons c cs)
  have "is_digit c" using digits_all_digit [of n] Cons by simp
  then have "c \<noteq> CHR ''-''" "c \<noteq> CHR ''+''" by (auto simp: is_digit_def)
  then show ?thesis using unsigned_Number_digits [of n] Cons by simp
qed

lemma js_Number_String: "js_Number (js_String n) = Num n"
  by (simp add: js_String_def js_Number_digits unsigned_Number_digits)

lemma js_String_nonempty: "js_String n \<noteq> []"
  by (simp add: js_String_def digits_nonempty)

lemma numberOrNull_String: "numberOrNull (Some (js_String c)) = Some (Num c)"
  by (simp add: numberOrNull_def js_String_nonempty js_Number_String)

lemma getProcessingHeight_frame: "getProcessingHeight w = (r, w1) \<Longrightarrow> same_scan w w1"
  using getValue_frame [of "''lto:processing-height''" w _ w1]
  by (auto simp: getProcessingHeight_def same_scan_def split: prod.splits sum.splits)

lemma getProcessingHeight_value:
  "getProcessingHeight w = (r, w1) \<Longrightarrow>
     r = Inr (case fst (getValue ''lto:processing-height'' w) of
                Inl e \<Rightarrow> None | Inr v \<Rightarrow> numberOrNull v)"
  by (auto simp: getProcessingHeight_def numberOrNull_def split: prod.splits sum.splits)

lemma fetched_append: "fetched (xs @ ys) = fetched xs @ fetched ys"
  by (induction xs rule: fetched.induct) simp_all

lemma checkpoints_append: "checkpoints (xs @ ys) = checkpoints xs @ checkpoints ys"
  by (induction xs rule: checkpoints.induct) simp_all

lemma fetched_TxDone: "fetched (map (\<lambda>t. TxDone (tx_id t)) ts) = []"
  by (induction ts) simp_all

lemma checkpoints_TxDone: "checkpoints (map (\<lambda>t. TxDone (tx_id t)) ts) = []"
  by (induction ts) simp_all

lemma block_events_Inr:
  "getBlock (nod s) h = Inr b \<Longrightarrow>
     block_events s h = GotBlock h # map (\<lambda>t. TxDone (tx_id t)) (transactions b) @ [Saved h]"
  by (simp add: block_events_def)

lemma sections_heights:
  "\<forall>j\<in>set hs. \<exists>b. getBlock (nod s) j = Inr b \<Longrightarrow>
     fetched (concat (map (block_events s) hs)) = hs \<and>
     checkpoints (concat (map (block_events s) hs)) = hs"
proof (induction hs)
  case Nil
  then show ?case by simp
next
  case (Cons h hs)
  then obtain b where "getBlock (nod s) h = Inr b" by auto
  then show ?case using Cons
    by (simp add: block_events_Inr fetched_append checkpoints_append fetched_TxDone
        checkpoints_TxDone)
qed

lemma partial_heights:
  assumes "prefix partial (butlast (block_events s k))"
  shows "checkpoints partial = [] \<and> (fetched partial = [] \<or> fetched partial = [k])"
proof (cases "getBlock (nod s) k")
  case (Inl e)
  then show ?thesis using assms by (simp add: block_events_def)
next
  case (Inr b)
  then have "prefix partial (GotBlock k # map (\<lambda>t. TxDone (tx_id t)) (transactions b))"
    using assms by (simp add: block_events_Inr butlast_append)
  then obtain n where "partial = take n (GotBlock k # map (\<lambda>t. TxDone (tx_id t)) (transactions b))"
    by (metis append_eq_conv_conj prefix_def)
  then show ?thesis
    using fetched_TxDone [of "take (n - 1) (transactions b)"]
      checkpoints_TxDone [of "take (n - 1) (transactions b)"]
    by (cases n) (simp_all add: take_map)
qed

lemma checkNewBlock_cases:
  assumes "checkNewBlock s w = (r, w')"
  obtains (node_down) e where "getLastBlockHeight (nod s) = Inl e" and "r = Inl e"
      and "trace w' = trace w" and "vals w' = vals w"
    | (scan) cur saved w1 w2 where "getLastBlockHeight (nod s) = Inr cur"
      and "getProcessingHeight (w\<lparr>processing := True\<rparr>) = (Inr saved, w1)"
      and "forHeights s (firstHeight saved w) cur w1 = (r, w2)"
      and "trace w1 = trace w" and "vals w1 = vals w" and "lastBlock w1 = lastBlock w"
      and "trace w' = trace w2" and "vals w' = vals w2"
proof (cases "getLastBlockHeight (nod s)")
  case (Inl e)
  then show ?thesis using assms node_down [of e] by (auto simp: checkNewBlock_def)
next
  case (Inr cur)
  obtain q w1 where g: "getProcessingHeight (w\<lparr>processing := True\<rparr>) = (q, w1)"
    by (cases "getProcessingHeight (w\<lparr>processing := True\<rparr>)")
  obtain saved where q: "q = Inr saved" using getProcessingHeight_value [OF g] by simp
  have f: "trace w1 = trace w" "vals w1 = vals w" "lastBlock w1 = lastBlock w"
    using getProcessingHeight_frame [OF g] by (simp_all add: same_scan_def)
  obtain r2 w2 where l: "forHeights s (firstHeight saved w) cur w1 = (r2, w2)"
    by (cases "forHeights s (firstHeight saved w) cur w1")
  have fh: "firstHeight saved w1 = firstHeight saved w" using f by (simp add: firstHeight_def)
  have "r = r2 \<and> trace w' = trace w2 \<and> vals w' = vals w2"
    using assms Inr g q l fh by (cases r2) (auto simp: checkNewBlock_def)
  then show ?thesis using scan [OF Inr g [unfolded q] _ f] l by simp
qed

lemma pass_trace:
  assumes "checkNewBlock s w = (r, w')" and "getLastBlockHeight (nod s) = Inr cur"
    and "getProcessingHeight (w\<lparr>processing := True\<rparr>) = (Inr saved, w1)"
  shows "\<exists>k partial. firstHeight saved w \<le> k \<and> k \<le> max (firstHeight saved w) (cur + 1) \<and>
        trace w' = trace w @ concat (map (block_events s) [firstHeight saved w..k - 1]) @ partial \<and>
        prefix partial (butlast (block_events s k)) \<and>
        (\<forall>j. firstHeight saved w \<le> j \<and> j < k \<longrightarrow> (\<exists>b. getBlock (nod s) j = Inr b)) \<and>
        vals w' = (if k = firstHeight saved w then vals w
                   else (vals w)(''lto:processing-height'' \<mapsto> js_String (k - 1))) \<and>
        (case r of Inr _ \<Rightarrow> partial = [] \<and> k = max (firstHeight saved w) (cur + 1)
                | Inl _ \<Rightarrow> k \<le> cur)"
  using assms(1)
proof (cases rule: checkNewBlock_cases)
  case (node_down e)
  then show ?thesis using assms(2) by simp
next
  case (scan cur' saved' w1' w2)
  then have eq: "cur' = cur" "saved' = saved" using assms(2,3) by simp_all
  from forHeights_trace [OF scan(3)] obtain k partial where
    "firstHeight saved' w \<le> k \<and> k \<le> max (firstHeight saved' w) (cur' + 1) \<and>
        lastBlock w2 = lastBlock w1' \<and>
        trace w2 = trace w1' @ concat (map (block_events s) [firstHeight saved' w..k - 1]) @ partial \<and>
        prefix partial (butlast (block_events s k)) \<and>
        (\<forall>j. firstHeight saved' w \<le> j \<and> j < k \<longrightarrow> (\<exists>b. getBlock (nod s) j = Inr b)) \<and>
        vals w2 = (if k = firstHeight saved' w then vals w1'
                   else (vals w1')(''lto:processing-height'' \<mapsto> js_String (k - 1))) \<and>
        (case r of Inr _ \<Rightarrow> partial = [] \<and> k = max (firstHeight saved' w) (cur' + 1)
                | Inl _ \<Rightarrow> k \<le> cur')"
    by blast
  then have "firstHeight saved w \<le> k \<and> k \<le> max (firstHeight saved w) (cur + 1) \<and>
        trace w' = trace w @ concat (map (block_events s) [firstHeight saved w..k - 1]) @ partial \<and>
        prefix partial (butlast (block_events s k)) \<and>
        (\<forall>j. firstHeight saved w \<le> j \<and> j < k \<longrightarrow> (\<exists>b. getBlock (nod s) j = Inr b)) \<and>
        vals w' = (if k = firstHeight saved w then vals w
                   else (vals w)(''lto:processing-height'' \<mapsto> js_String (k - 1))) \<and>
        (case r of Inr _ \<Rightarrow> partial = [] \<and> k = max (firstHeight saved w) (cur + 1)
                | Inl _ \<Rightarrow> k \<le> cur)"
    unfolding eq scan(4,5,7,8) by blast
  then show ?thesis by blast
qed

lemma section_before:
  assumes ok: "\<forall>j. first \<le> j \<and> j < k \<longrightarrow> (\<exists>b. getBlock (nod s) j = Inr b)"
    and pf: "prefix partial (butlast (block_events s k))"
    and h: "first \<le> h1" "h1 < h2"
    and mem: "h2 \<in> set (fetched (concat (map (block_events s) [first..k - 1]) @ partial))"
  shows "\<exists>a b post. concat (map (block_events s) [first..k - 1]) @ partial =
           a @ block_events s h1 @ b @ GotBlock h2 # post"
proof -
  have "\<forall>j\<in>set [first..k - 1]. \<exists>b. getBlock (nod s) j = Inr b" using ok by auto
  then have fs: "fetched (concat (map (block_events s) [first..k - 1])) = [first..k - 1]"
    using sections_heights by blast
  have "h2 \<in> set [first..k - 1] \<or> h2 \<in> set (fetched partial)"
    using mem fs by (simp add: fetched_append)
  then consider (inner) "h2 \<le> k - 1" | (last) "h2 = k" "fetched partial = [k]"
    using partial_heights [OF pf] by auto
  then show ?thesis
  proof cases
    case inner
    obtain b2 where b2: "getBlock (nod s) h2 = Inr b2" using ok h inner by force
    have "[first..k - 1] = [first..h1 - 1] @ h1 # [h1 + 1..k - 1]"
      using h inner by (intro upto_split3) auto
    also have "[h1 + 1..k - 1] = [h1 + 1..h2 - 1] @ h2 # [h2 + 1..k - 1]"
      using h inner by (intro upto_split3) auto
    finally have "concat (map (block_events s) [first..k - 1]) @ partial =
        concat (map (block_events s) [first..h1 - 1]) @ block_events s h1 @
        concat (map (block_events s) [h1 + 1..h2 - 1]) @
        GotBlock h2 # (map (\<lambda>t. TxDone (tx_id t)) (transactions b2) @ [Saved h2]) @
          concat (map (block_events s) [h2 + 1..k - 1]) @ partial"
      by (simp add: block_events_Inr [OF b2])
    then show ?thesis by blast
  next
    case last
    then obtain e p where p: "partial = e # p" by (cases partial) auto
    have "prefix partial (butlast (block_events s k))" by (rule pf)
    then have "e = GotBlock k"
      unfolding p by (cases "getBlock (nod s) k") (auto simp: block_events_def butlast_append)
    have "[first..k - 1] = [first..h1 - 1] @ h1 # [h1 + 1..k - 1]"
      using h last by (intro upto_split3) auto
    then have "concat (map (block_events s) [first..k - 1]) @ partial =
        concat (map (block_events s) [first..h1 - 1]) @ block_events s h1 @
        concat (map (block_events s) [h1 + 1..k - 1]) @ GotBlock h2 # p"
      using p \<open>e = GotBlock k\<close> last by simp
    then show ?thesis by blast
  qed
qed

lemmas scan_eval =
  checkNewBlock_def getProcessingHeight_def getValue_def attempt_def empty_world_def
  numberOrNull_String firstHeight_def test_services_def test_node_def forHeights.simps
  processBlock_def saveProcessingHeight_def setValue_def

lemma lagging_pass:
  "fst (checkNewBlock (test_services 12 (\<lambda>h. [])) lagging_world) = Inr ()"
  "trace (snd (checkNewBlock (test_services 12 (\<lambda>h. [])) lagging_world)) =
     [GotBlock 6, Saved 6, GotBlock 7, Saved 7, GotBlock 8, Saved 8, GotBlock 9, Saved 9,
      GotBlock 10, Saved 10, GotBlock 11, Saved 11, GotBlock 12, Saved 12]"
  by (simp_all add: scan_eval lagging_world_def)

lemma two_blocks_pass:
  "fst (checkNewBlock two_blocks empty_world) = Inr ()"
  "trace (snd (checkNewBlock two_blocks empty_world)) =
     [GotBlock 1, TxDone ''tx1'', Saved 1, GotBlock 2, TxDone ''tx2'', Saved 2]"
  "inflight (snd (checkNewBlock two_blocks empty_world)) =
     [AddObject ''lto:anchor:61'' (Str ''tx2'')]"
  "vals (snd (checkNewBlock two_blocks empty_world)) ''lto:processing-height'' =
     Some (js_String 2)"
  using replace_prefix [of "''base64:''" "''3q0=''"] lower_DEAD lower_61
  by (simp_all add: scan_eval two_blocks_def numberOrNull_def
      processTransaction_def index_def indexTx_def test_config_def test_encoder_def
      legacy_anchor_tx_def native_anchor_tx_def transactionTypes_def saveAnchor_def
      addObject_def merge_field_def dropped_def anchorToken_def)

lemma empty_read:
  "getProcessingHeight (empty_world\<lparr>processing := True\<rparr>) =
     (Inr None, empty_world\<lparr>processing := True\<rparr>)"
  by (simp add: getProcessingHeight_def getValue_def attempt_def empty_world_def numberOrNull_def)

lemma lagging_read:
  "getProcessingHeight (lagging_world\<lparr>processing := True\<rparr>) =
     (Inr (Some (Num 5)), lagging_world\<lparr>processing := True\<rparr>)"
  by (simp add: getProcessingHeight_def getValue_def attempt_def empty_world_def lagging_world_def
      numberOrNull_String)

lemma two_blocks_height: "getLastBlockHeight (nod two_blocks) = Inr 2"
  by (simp add: two_blocks_def test_services_def test_node_def)

subsection \<open>Where a pass starts (claim C1)\<close>

text \<open>
  Claim C1 puts the first height of a pass at \<open>max(checkpoint, lastBlock) + 1\<close>. The code
  computes \<open>(checkpoint || lastBlock) + 1\<close>: a saved checkpoint wins even when it is below
  the last known height. With the checkpoint 5 and \<open>lastBlock = 10\<close> the pass fetches the
  heights 6 to 12, not 11 to 12.
\<close>

theorem pass_resumes_below_last_block:
  "fst (getValue ''lto:processing-height'' lagging_world) = Inr (Some (js_String 5)) \<and>
   lastBlock lagging_world = 10 \<and>
   getLastBlockHeight (nod (test_services 12 (\<lambda>h. []))) = Inr 12 \<and>
   fst (checkNewBlock (test_services 12 (\<lambda>h. [])) lagging_world) = Inr () \<and>
   fetched (trace (snd (checkNewBlock (test_services 12 (\<lambda>h. [])) lagging_world))) =
     [6, 7, 8, 9, 10, 11, 12] \<and>
   hd (fetched (trace (snd (checkNewBlock (test_services 12 (\<lambda>h. [])) lagging_world)))) \<noteq>
     max 5 10 + 1"
  by (simp add: lagging_pass)
     (simp add: getValue_def attempt_def lagging_world_def empty_world_def test_services_def
       test_node_def)

text \<open>
  Claim C1, amended: the heights a pass fetches are a prefix of the heights from
  \<open>firstHeight\<close> up to the node's current height, and all of them when the pass completes;
  \<open>firstHeight\<close> is \<open>c + 1\<close> when the checkpoint \<open>c\<close> that is read is not 0, and
  \<open>lastBlock + 1\<close> when the checkpoint is 0, when none is stored and when the read fails.
\<close>

theorem pass_starts_after_checkpoint:
  assumes "checkNewBlock s w = (r, w')" and "getLastBlockHeight (nod s) = Inr cur"
    and "getProcessingHeight (w\<lparr>processing := True\<rparr>) = (Inr saved, w1)"
  shows "(\<exists>evs. trace w' = trace w @ evs \<and> prefix (fetched evs) [firstHeight saved w..cur] \<and>
            (r = Inr () \<longrightarrow> fetched evs = [firstHeight saved w..cur])) \<and>
     (fst (getValue ''lto:processing-height'' (w\<lparr>processing := True\<rparr>)) = Inr (Some (js_String c)) \<longrightarrow>
        firstHeight saved w = (if c \<noteq> 0 then c + 1 else lastBlock w + 1)) \<and>
     (fst (getValue ''lto:processing-height'' (w\<lparr>processing := True\<rparr>)) = Inr None \<longrightarrow>
        firstHeight saved w = lastBlock w + 1) \<and>
     (fst (getValue ''lto:processing-height'' (w\<lparr>processing := True\<rparr>)) = Inl e \<longrightarrow>
        firstHeight saved w = lastBlock w + 1)"
proof -
  let ?first = "firstHeight saved w"
  from pass_trace [OF assms] obtain k partial where
    k: "?first \<le> k" "k \<le> max ?first (cur + 1)"
    and tr: "trace w' = trace w @ concat (map (block_events s) [?first..k - 1]) @ partial"
    and pf: "prefix partial (butlast (block_events s k))"
    and ok: "\<forall>j. ?first \<le> j \<and> j < k \<longrightarrow> (\<exists>b. getBlock (nod s) j = Inr b)"
    and rr: "(case r of Inr _ \<Rightarrow> partial = [] \<and> k = max ?first (cur + 1) | Inl _ \<Rightarrow> k \<le> cur)"
    by blast
  let ?evs = "concat (map (block_events s) [?first..k - 1]) @ partial"
  have "\<forall>j\<in>set [?first..k - 1]. \<exists>b. getBlock (nod s) j = Inr b" using ok by auto
  then have sec: "fetched (concat (map (block_events s) [?first..k - 1])) = [?first..k - 1]"
    using sections_heights by blast
  have ph: "fetched partial = [] \<or> fetched partial = [k]"
    using partial_heights [OF pf] by simp
  have fe: "fetched ?evs = [?first..k - 1] @ fetched partial" using sec by (simp add: fetched_append)
  have a: "r = Inr () \<longrightarrow> fetched ?evs = [?first..cur]"
  proof
    assume "r = Inr ()"
    then have "partial = []" "k = max ?first (cur + 1)" using rr by simp_all
    then show "fetched ?evs = [?first..cur]" using fe by (auto simp: max_def)
  qed
  have b: "prefix (fetched ?evs) [?first..cur]"
  proof (cases r)
    case (Inr u)
    then show ?thesis using a by simp
  next
    case (Inl e')
    then have kc: "k \<le> cur" using rr by simp
    have "[?first..cur] = [?first..k - 1] @ k # [k + 1..cur]"
      using k(1) kc by (intro upto_split3) auto
    then show ?thesis using fe ph by auto
  qed
  have v: "saved = (case fst (getValue ''lto:processing-height'' (w\<lparr>processing := True\<rparr>)) of
                Inl e \<Rightarrow> None | Inr v \<Rightarrow> numberOrNull v)"
    using getProcessingHeight_value [OF assms(3)] by simp
  have c1: "fst (getValue ''lto:processing-height'' (w\<lparr>processing := True\<rparr>)) = Inr (Some (js_String c)) \<longrightarrow>
        ?first = (if c \<noteq> 0 then c + 1 else lastBlock w + 1)"
    using v by (auto simp: numberOrNull_String firstHeight_def)
  have c2: "fst (getValue ''lto:processing-height'' (w\<lparr>processing := True\<rparr>)) = Inr None \<longrightarrow>
        ?first = lastBlock w + 1"
    using v by (auto simp: numberOrNull_def firstHeight_def)
  have c3: "fst (getValue ''lto:processing-height'' (w\<lparr>processing := True\<rparr>)) = Inl e \<longrightarrow>
        ?first = lastBlock w + 1"
    using v by (auto simp: firstHeight_def)
  show ?thesis using tr a b c1 c2 c3 by blast
qed

theorem pass_starts_after_checkpoint_witness:
  "getLastBlockHeight (nod (test_services 12 (\<lambda>h. []))) = Inr 12 \<and>
   getProcessingHeight (lagging_world\<lparr>processing := True\<rparr>) =
     (Inr (Some (Num 5)), lagging_world\<lparr>processing := True\<rparr>) \<and>
   fst (checkNewBlock (test_services 12 (\<lambda>h. [])) lagging_world) = Inr () \<and>
   fst (getValue ''lto:processing-height'' (lagging_world\<lparr>processing := True\<rparr>)) =
     Inr (Some (js_String 5)) \<and>
   firstHeight (Some (Num 5)) lagging_world = 5 + 1 \<and>
   (\<exists>evs. trace (snd (checkNewBlock (test_services 12 (\<lambda>h. [])) lagging_world)) =
            trace lagging_world @ evs \<and>
          fetched evs = [firstHeight (Some (Num 5)) lagging_world..12])"
proof -
  let ?s = "test_services 12 (\<lambda>h. [])"
  have p: "checkNewBlock ?s lagging_world =
      (fst (checkNewBlock ?s lagging_world), snd (checkNewBlock ?s lagging_world))"
    by simp
  have h: "getLastBlockHeight (nod ?s) = Inr 12"
    by (simp add: test_services_def test_node_def)
  have g: "fst (getValue ''lto:processing-height'' (lagging_world\<lparr>processing := True\<rparr>)) =
     Inr (Some (js_String 5))"
    by (simp add: getValue_def attempt_def lagging_world_def empty_world_def)
  from pass_starts_after_checkpoint [OF p h lagging_read, of 5] lagging_pass(1) g
  have "(\<exists>evs. trace (snd (checkNewBlock ?s lagging_world)) = trace lagging_world @ evs \<and>
          fetched evs = [firstHeight (Some (Num 5)) lagging_world..12]) \<and>
        firstHeight (Some (Num 5)) lagging_world = 5 + 1"
    by auto
  then show ?thesis using h lagging_read lagging_pass(1) g by blast
qed

subsection \<open>Blocks in order, checkpoint after the block (claim C3)\<close>

text \<open>
  The order of a pass, as far as the control flow fixes it: the trace consists of the
  sections of consecutive, increasing heights, each with the fetch of the block, the
  return of \<open>processTransaction\<close> for every one of its transactions, then its checkpoint;
  the stored checkpoint is the last height whose section is complete, and a pass that
  fails ends with a section that has no checkpoint. The return of \<open>processTransaction\<close>
  does not mean that the writes of a type-15 transaction are complete.
\<close>

lemma pass_sections_in_order:
  assumes "checkNewBlock s w = (r, w')" and "getLastBlockHeight (nod s) = Inr cur"
    and "getProcessingHeight (w\<lparr>processing := True\<rparr>) = (Inr saved, w1)"
  shows "\<exists>k partial evs.
     evs = concat (map (block_events s) [firstHeight saved w..k - 1]) @ partial \<and>
     trace w' = trace w @ evs \<and>
     (\<forall>j. firstHeight saved w \<le> j \<and> j < k \<longrightarrow> (\<exists>b. getBlock (nod s) j = Inr b)) \<and>
     prefix partial (butlast (block_events s k)) \<and>
     (r = Inr () \<longrightarrow> partial = [] \<and> k = max (firstHeight saved w) (cur + 1)) \<and>
     sorted_wrt (<) (fetched evs) \<and>
     checkpoints evs = [firstHeight saved w..k - 1] \<and>
     (firstHeight saved w < k \<longrightarrow>
        vals w' ''lto:processing-height'' = Some (js_String (k - 1))) \<and>
     (\<forall>h1 h2. firstHeight saved w \<le> h1 \<and> h1 < h2 \<and> h2 \<in> set (fetched evs) \<longrightarrow>
        (\<exists>a b post. evs = a @ block_events s h1 @ b @ GotBlock h2 # post))"
proof -
  let ?first = "firstHeight saved w"
  from pass_trace [OF assms] obtain k partial where
    k: "?first \<le> k" "k \<le> max ?first (cur + 1)"
    and tr: "trace w' = trace w @ concat (map (block_events s) [?first..k - 1]) @ partial"
    and pf: "prefix partial (butlast (block_events s k))"
    and ok: "\<forall>j. ?first \<le> j \<and> j < k \<longrightarrow> (\<exists>b. getBlock (nod s) j = Inr b)"
    and vl: "vals w' = (if k = ?first then vals w
                   else (vals w)(''lto:processing-height'' \<mapsto> js_String (k - 1)))"
    and rr: "(case r of Inr _ \<Rightarrow> partial = [] \<and> k = max ?first (cur + 1) | Inl _ \<Rightarrow> k \<le> cur)"
    by blast
  let ?evs = "concat (map (block_events s) [?first..k - 1]) @ partial"
  have "\<forall>j\<in>set [?first..k - 1]. \<exists>b. getBlock (nod s) j = Inr b" using ok by auto
  then have sec: "fetched (concat (map (block_events s) [?first..k - 1])) = [?first..k - 1]"
    "checkpoints (concat (map (block_events s) [?first..k - 1])) = [?first..k - 1]"
    using sections_heights by blast+
  have ph: "checkpoints partial = []" "fetched partial = [] \<or> fetched partial = [k]"
    using partial_heights [OF pf] by simp_all
  have "fetched ?evs = [?first..k - 1] \<or> fetched ?evs = [?first..k - 1] @ [k]"
    using sec(1) ph(2) by (auto simp: fetched_append)
  moreover have "[?first..k - 1] @ [k] = [?first..k]"
    using k(1) upto_rec2 [of ?first k] by simp
  ultimately have "fetched ?evs = [?first..k - 1] \<or> fetched ?evs = [?first..k]" by simp
  then have inc: "sorted_wrt (<) (fetched ?evs)"
    by (auto simp: strict_sorted_iff)
  have cp: "checkpoints ?evs = [?first..k - 1]" using sec(2) ph(1) by (simp add: checkpoints_append)
  have res: "r = Inr () \<longrightarrow> partial = [] \<and> k = max ?first (cur + 1)"
    using rr by (cases r) auto
  have st: "?first < k \<longrightarrow> vals w' ''lto:processing-height'' = Some (js_String (k - 1))"
    using vl by simp
  have ord: "\<forall>h1 h2. ?first \<le> h1 \<and> h1 < h2 \<and> h2 \<in> set (fetched ?evs) \<longrightarrow>
        (\<exists>a b post. ?evs = a @ block_events s h1 @ b @ GotBlock h2 # post)"
    using section_before [OF ok pf] by blast
  show ?thesis
    using tr ok pf res inc cp st ord by blast
qed

lemma three_blocks_pass:
  "fst (checkNewBlock three_blocks empty_world) = Inr ()"
  "trace (snd (checkNewBlock three_blocks empty_world)) =
     [GotBlock 1, TxDone ''tx1'', Saved 1, GotBlock 2, TxDone ''tx2'', Saved 2,
      GotBlock 3, Saved 3]"
  "inflight (snd (checkNewBlock three_blocks empty_world)) =
     [AddObject ''lto:anchor:61'' (Str ''tx2'')]"
  "objs (snd (checkNewBlock three_blocks empty_world)) ''lto:anchor:61'' = []"
  "objs (snd (checkNewBlock three_blocks empty_world)) ''lto:anchor:dead'' =
     [(''tx1'', Str ''tx1'')]"
  "vals (snd (checkNewBlock three_blocks empty_world)) ''lto:processing-height'' =
     Some (js_String 3)"
  using replace_prefix [of "''base64:''" "''3q0=''"] lower_DEAD lower_61 lower_dead
  by (simp_all add: scan_eval three_blocks_def numberOrNull_def
      processTransaction_def index_def indexTx_def test_config_def test_encoder_def
      legacy_anchor_tx_def native_anchor_tx_def transactionTypes_def saveAnchor_def
      addObject_def merge_field_def dropped_def anchorToken_def)

lemma two_blocks_store:
  "objs (snd (checkNewBlock two_blocks empty_world)) ''lto:anchor:61'' = []"
  using replace_prefix [of "''base64:''" "''3q0=''"] lower_DEAD lower_61 lower_dead
  by (simp add: scan_eval two_blocks_def numberOrNull_def
      processTransaction_def index_def indexTx_def test_config_def test_encoder_def
      legacy_anchor_tx_def native_anchor_tx_def transactionTypes_def saveAnchor_def
      addObject_def merge_field_def dropped_def anchorToken_def)

text \<open>
  Claim C3 says that for heights \<open>h1 < h2\<close> block \<open>h1\<close> is fully indexed and its checkpoint
  persisted before the indexing of block \<open>h2\<close> begins, that \<open>saveProcessingHeight(h)\<close> is
  called only after every transaction of block \<open>h\<close> has been indexed, and that blocks are
  processed in strictly increasing height order. The order of the calls is as the claim
  says, but the scan saves the checkpoint of a block once \<open>processTransaction\<close> has
  returned for its transactions, and for a type-15 transaction that is before its
  anchors are written. On a chain whose block 2 holds the transaction with the anchor
  \<open>2g\<close>: when the pass over two blocks ends, the checkpoint 2 is stored, the anchor record
  is empty and its write is in flight; in the pass over three blocks, block 3 is fetched
  and the checkpoint 3 is stored with the anchor of block 2 still not written, while the
  awaited anchor of block 1 is.
\<close>

theorem checkpoint_saved_with_anchor_unwritten:
  "fst (checkNewBlock two_blocks empty_world) = Inr () \<and>
   trace (snd (checkNewBlock two_blocks empty_world)) =
     [GotBlock 1, TxDone ''tx1'', Saved 1, GotBlock 2, TxDone ''tx2'', Saved 2] \<and>
   vals (snd (checkNewBlock two_blocks empty_world)) ''lto:processing-height'' =
     Some (js_String 2) \<and>
   objs (snd (checkNewBlock two_blocks empty_world)) ''lto:anchor:61'' = [] \<and>
   inflight (snd (checkNewBlock two_blocks empty_world)) =
     [AddObject ''lto:anchor:61'' (Str ''tx2'')] \<and>
   fst (checkNewBlock three_blocks empty_world) = Inr () \<and>
   trace (snd (checkNewBlock three_blocks empty_world)) =
     [GotBlock 1, TxDone ''tx1'', Saved 1, GotBlock 2, TxDone ''tx2'', Saved 2,
      GotBlock 3, Saved 3] \<and>
   vals (snd (checkNewBlock three_blocks empty_world)) ''lto:processing-height'' =
     Some (js_String 3) \<and>
   objs (snd (checkNewBlock three_blocks empty_world)) ''lto:anchor:61'' = [] \<and>
   inflight (snd (checkNewBlock three_blocks empty_world)) =
     [AddObject ''lto:anchor:61'' (Str ''tx2'')] \<and>
   objs (snd (checkNewBlock three_blocks empty_world)) ''lto:anchor:dead'' =
     [(''tx1'', Str ''tx1'')]"
  using two_blocks_pass two_blocks_store three_blocks_pass by simp

section \<open>Trust roles (claim C9)\<close>

lemma dedup_by_keys: "f ` set (dedup_by f xs) = f ` set xs"
proof (induction f xs rule: dedup_by.induct)
  case (1 f)
  then show ?case by simp
next
  case (2 f x xs)
  then show ?case by auto
qed

lemma dedup_by_append:
  "dedup_by f (xs @ ys) = dedup_by f xs @ dedup_by f (filter (\<lambda>y. f y \<notin> f ` set xs) ys)"
proof (induction f xs arbitrary: ys rule: dedup_by.induct)
  case (1 f)
  then show ?case by simp
next
  case (2 f x xs)
  let ?p = "\<lambda>y. f y \<noteq> f x"
  have "filter (\<lambda>y. f y \<notin> f ` set (filter ?p xs)) (filter ?p ys) =
        filter (\<lambda>y. f y \<notin> f ` set (x # xs)) ys"
    unfolding filter_filter by (rule filter_cong) auto
  then show ?case using "2.IH" [of "filter ?p ys"] by simp
qed

lemma pushIssues_eq:
  "pushIssues acc xs = acc @ dedup_by role (filter (\<lambda>y. role y \<notin> role ` set acc) xs)"
proof (induction xs arbitrary: acc)
  case Nil
  then show ?case by simp
next
  case (Cons x xs)
  show ?case
  proof (cases "role x \<in> role ` set acc")
    case True
    then obtain y where "find (\<lambda>each. role each = role x) acc = Some y"
      by (cases "find (\<lambda>each. role each = role x) acc") (auto simp: find_None_iff)
    then show ?thesis using Cons.IH [of acc] True by simp
  next
    case False
    then have n: "find (\<lambda>each. role each = role x) acc = None"
      unfolding find_None_iff by (metis image_eqI)
    have "filter (\<lambda>y. role y \<notin> role ` set (acc @ [x])) xs =
          filter (\<lambda>y. role y \<noteq> role x) (filter (\<lambda>y. role y \<notin> role ` set acc) xs)"
      unfolding filter_filter by (rule filter_cong) auto
    then show ?thesis using Cons.IH [of "acc @ [x]"] n False by simp
  qed
qed

lemma pushAuthorization_eq:
  "pushAuthorization acc xs = acc @ dedup_by (\<lambda>a. a) (filter (\<lambda>y. y \<notin> set acc) xs)"
proof (induction xs arbitrary: acc)
  case Nil
  then show ?case by simp
next
  case (Cons x xs)
  show ?case
  proof (cases "x \<in> set acc")
    case True
    then obtain y where "find (\<lambda>each. each = x) acc = Some y"
      by (cases "find (\<lambda>each. each = x) acc") (auto simp: find_None_iff)
    then show ?thesis using Cons.IH [of acc] True by simp
  next
    case False
    then have n: "find (\<lambda>each. each = x) acc = None"
      by (auto simp: find_None_iff)
    have "filter (\<lambda>y. y \<notin> set (acc @ [x])) xs =
          filter (\<lambda>y. y \<noteq> x) (filter (\<lambda>y. y \<notin> set acc) xs)"
      unfolding filter_filter by (rule filter_cong) auto
    then show ?thesis using Cons.IH [of "acc @ [x]"] n False by simp
  qed
qed

lemma dedup_by_step:
  "dedup_by f (filter (\<lambda>y. f y \<notin> f ` A) xs @ filter (\<lambda>y. f y \<notin> f ` A) ys) =
   dedup_by f (filter (\<lambda>y. f y \<notin> f ` A) xs) @
   dedup_by f (filter (\<lambda>y. f y \<notin> f ` (A \<union> set (dedup_by f (filter (\<lambda>y. f y \<notin> f ` A) xs)))) ys)"
proof -
  let ?a = "filter (\<lambda>y. f y \<notin> f ` A) xs"
  have "f ` set (dedup_by f ?a) = f ` set ?a" by (rule dedup_by_keys)
  then have "filter (\<lambda>y. f y \<notin> f ` set ?a) (filter (\<lambda>y. f y \<notin> f ` A) ys) =
        filter (\<lambda>y. f y \<notin> f ` (A \<union> set (dedup_by f ?a))) ys"
    unfolding filter_filter by (intro filter_cong) (auto simp: image_Un)
  then show ?thesis by (simp add: dedup_by_append)
qed

lemma dedup_by_step_id:
  "dedup_by (\<lambda>a. a) (filter (\<lambda>y. y \<notin> A) xs @ filter (\<lambda>y. y \<notin> A) ys) =
   dedup_by (\<lambda>a. a) (filter (\<lambda>y. y \<notin> A) xs) @
   dedup_by (\<lambda>a. a)
     (filter (\<lambda>y. y \<notin> A \<and> y \<notin> set (dedup_by (\<lambda>a. a) (filter (\<lambda>y. y \<notin> A) xs))) ys)"
  using dedup_by_step [of "\<lambda>a. a" A xs ys] by simp

lemma get_property_Own: "table n = Some d \<Longrightarrow> get_property table n = Own d"
  by (simp add: get_property_def)

lemma get_property_Inherited:
  "table n = None \<Longrightarrow> n \<in> set object_prototype_names \<Longrightarrow> get_property table n = Inherited"
  by (simp add: get_property_def)

lemma get_property_Undefined:
  "table n = None \<Longrightarrow> n \<notin> set object_prototype_names \<Longrightarrow> get_property table n = Undefined"
  by (simp add: get_property_def)

lemma forRoles_eq:
  "forRoles table names result =
     \<lparr> roles = roles result @ filter (\<lambda>n. get_property table n \<noteq> Undefined) names,
       issues_roles = issues_roles result @
         dedup_by role (filter (\<lambda>y. role y \<notin> role ` set (issues_roles result))
           (concat (map (issues_of table) (filter (\<lambda>n. table n \<noteq> None) names)))),
       issues_authorization = issues_authorization result @
         dedup_by (\<lambda>a. a) (filter (\<lambda>y. y \<notin> set (issues_authorization result))
           (concat (map (authorization_of table) (filter (\<lambda>n. table n \<noteq> None) names)))) \<rparr>"
proof (induction names arbitrary: result)
  case Nil
  then show ?case by simp
next
  case (Cons n names)
  show ?case
  proof (cases "table n")
    case None
    show ?thesis
    proof (cases "n \<in> set object_prototype_names")
      case True
      then have "get_property table n = Inherited" using None by (rule get_property_Inherited [rotated])
      then show ?thesis using None Cons.IH [of "result\<lparr>roles := roles result @ [n]\<rparr>"] by simp
    next
      case False
      then have "get_property table n = Undefined" using None by (rule get_property_Undefined [rotated])
      then show ?thesis using None Cons.IH [of result] by simp
    qed
  next
    case (Some d)
    have p: "get_property table n = Own d" using Some by (rule get_property_Own)
    have i: "(case issues d of None \<Rightarrow> issues_roles result
                | Some xs \<Rightarrow> pushIssues (issues_roles result) xs) =
          issues_roles result @ dedup_by role
            (filter (\<lambda>y. role y \<notin> role ` set (issues_roles result)) (issues_of table n))"
      using Some by (cases "issues d") (simp_all add: issues_of_def pushIssues_eq)
    have a: "(case authorization d of None \<Rightarrow> issues_authorization result
                | Some xs \<Rightarrow> pushAuthorization (issues_authorization result) xs) =
          issues_authorization result @ dedup_by (\<lambda>a. a)
            (filter (\<lambda>y. y \<notin> set (issues_authorization result)) (authorization_of table n))"
      using Some by (cases "authorization d") (simp_all add: authorization_of_def pushAuthorization_eq)
    show ?thesis
      using Some p
      by (simp add: Cons.IH i a dedup_by_step [of role "set (issues_roles result)"]
          dedup_by_step_id [of "set (issues_authorization result)"])
  qed
qed

lemma set_for_in: "set (for_in doc) = fst ` set doc"
  by (auto simp: for_in_def)

text \<open>
  On a document none of whose keys is inherited by the table from \<open>Object.prototype\<close>,
  the code agrees with the specification's wording, the assigned names taken in
  \<open>for..in\<close> order; there a name that the table does not define contributes nothing.
\<close>

lemma getTrustNetworkRoles_spec:
  assumes "getTrustNetworkRoles c address w = (Inr r, w1)"
    and "\<forall>n\<in>fst ` set (objs w (''lto:roles:'' @ address)).
           getTrustNetworkRoles_cfg c n = None \<longrightarrow> n \<notin> set object_prototype_names"
  shows "r = getRoles_spec (getTrustNetworkRoles_cfg c) (for_in (objs w (''lto:roles:'' @ address)))"
proof -
  let ?table = "getTrustNetworkRoles_cfg c"
  from assms(1) obtain rs where g: "getObject (''lto:roles:'' @ address) w = (Inr rs, w1)"
    and r: "r = forRoles ?table (for_in rs)
                 \<lparr> roles = [], issues_roles = [], issues_authorization = [] \<rparr>"
    by (auto simp: getTrustNetworkRoles_def split: prod.splits sum.splits)
  have rs: "rs = objs w (''lto:roles:'' @ address)" using getObject_Inr [OF g] by simp
  have "filter (\<lambda>n. get_property ?table n \<noteq> Undefined) (for_in rs) =
        filter (\<lambda>n. ?table n \<noteq> None) (for_in rs)"
  proof (rule filter_cong [OF refl])
    fix n assume "n \<in> set (for_in rs)"
    then have "?table n = None \<longrightarrow> n \<notin> set object_prototype_names"
      using assms(2) rs by (auto simp: set_for_in)
    then show "(get_property ?table n \<noteq> Undefined) = (?table n \<noteq> None)"
      by (cases "?table n") (auto simp: get_property_def)
  qed
  then show ?thesis unfolding r forRoles_eq getRoles_spec_def rs by (simp add: Let_def)
qed

lemma ghost_ignored:
  assumes "table ghost = None" and "ghost \<notin> set object_prototype_names"
  shows "forRoles table (xs @ ghost # ys) result = forRoles table (xs @ ys) result"
  using assms by (simp add: forRoles_eq get_property_def)

lemma for_in_roles_world:
  "for_in (objs roles_world ''lto:roles:3Jaddr'') = [''validator'', ''ghost'']"
  "for_in (objs prototype_world ''lto:roles:3Jaddr'') = [''validator'', ''constructor'']"
  by (simp_all add: for_in_def array_index_def is_digit_def roles_world_def prototype_world_def
      empty_world_def)

text \<open>Array indices come first in \<open>for..in\<close> order, by value.\<close>

lemma for_in_indices_first:
  "for_in [(''b'', Str []), (''10'', Str []), (''9'', Str [])] = [''9'', ''10'', ''b'']"
  by (simp add: for_in_def array_index_def is_digit_def digits_value_def)

lemma roles_read:
  "getTrustNetworkRoles test_config ''3Jaddr'' roles_world =
     (Inr \<lparr> roles = [''validator''],
            issues_roles = [\<lparr> role = ''node'', role_type = 1 \<rparr>],
            issues_authorization = [''tx:anchor''] \<rparr>, roles_world)"
  using for_in_roles_world(1)
  by (simp add: getTrustNetworkRoles_def getObject_def attempt_def test_config_def
      get_property_def object_prototype_names_def roles_world_def empty_world_def)

text \<open>
  Claim C9 says that \<open>getRoles(address)\<close> returns exactly the assigned role names that are
  present in the role-definition table, and that an assigned name absent from the table
  contributes nothing to any of the three result lists. \<open>configRoles[role]\<close> is not a
  lookup among the table's own entries only: for the address that is assigned
  \<open>validator\<close> and \<open>constructor\<close>, with a table that defines \<open>validator\<close> alone, the code
  returns the roles \<open>validator\<close> and \<open>constructor\<close>, where the specification's wording gives
  \<open>validator\<close>.
\<close>

theorem prototype_name_reported_as_role:
  "getTrustNetworkRoles_cfg test_config ''constructor'' = None \<and>
   getTrustNetworkRoles test_config ''3Jaddr'' prototype_world =
     (Inr \<lparr> roles = [''validator'', ''constructor''],
            issues_roles = [\<lparr> role = ''node'', role_type = 1 \<rparr>],
            issues_authorization = [''tx:anchor''] \<rparr>, prototype_world) \<and>
   roles (getRoles_spec (getTrustNetworkRoles_cfg test_config)
            (for_in (objs prototype_world ''lto:roles:3Jaddr''))) = [''validator'']"
  using for_in_roles_world(2)
  by (simp add: getTrustNetworkRoles_def getObject_def attempt_def test_config_def
      get_property_def object_prototype_names_def getRoles_spec_def prototype_world_def
      empty_world_def)

section \<open>Legacy anchors (claim C8)\<close>

lemma merge_field_keeps:
  "(t, Str t) \<in> set doc \<Longrightarrow> (t, Str t) \<in> set (merge_field (i, Str i) doc)"
  by (force simp: merge_field_def)

lemma addObject_keeps:
  assumes "addObject k (Str i) w = (r, w')" and "(t, Str t) \<in> set (objs w k')"
  shows "(t, Str t) \<in> set (objs w' k')"
  using assms attempt_cases [of w] by (auto simp: addObject_def merge_field_keeps)

lemma forDataItems_keeps:
  "forDataItems e i items w = (r, w') \<Longrightarrow> (t, Str t) \<in> set (objs w k) \<Longrightarrow>
     (t, Str t) \<in> set (objs w' k)"
proof (induction items arbitrary: w)
  case Nil
  then show ?case by simp
next
  case (Cons item items)
  show ?case
  proof (cases "item_key item = anchorToken")
    case False
    then show ?thesis using Cons by simp
  next
    case True
    show ?thesis
    proof (cases "base64Decode e (replace ''base64:'' [] (item_value item))")
      case (Inl err)
      then show ?thesis using Cons.prems True by simp
    next
      case (Inr decoded)
      let ?k = "''lto:anchor:'' @ toLowerCase (hexEncode e decoded)"
      obtain r1 w1 where a: "addObject ?k (Str i) w = (r1, w1)"
        by (cases "addObject ?k (Str i) w")
      have k1: "(t, Str t) \<in> set (objs w1 k)" using a Cons.prems(2) by (rule addObject_keeps)
      show ?thesis
      proof (cases r1)
        case (Inl err)
        then show ?thesis using Cons.prems True Inr a k1 by (simp add: saveAnchor_def)
      next
        case u: (Inr u)
        then have "forDataItems e i items w1 = (r, w')"
          using Cons.prems True Inr a by (simp add: saveAnchor_def)
        then show ?thesis using Cons.IH k1 by blast
      qed
    qed
  qed
qed

lemma forDataItems_records:
  "forDataItems e i items w = (Inr u, w') \<Longrightarrow> item \<in> set items \<Longrightarrow>
   item_key item = anchorToken \<Longrightarrow> item_value item = ''base64:'' @ b64 \<Longrightarrow>
     \<exists>bs. base64Decode e b64 = Inr bs \<and>
          (i, Str i) \<in> set (objs w' (''lto:anchor:'' @ toLowerCase (hexEncode e bs)))"
proof (induction items arbitrary: w)
  case Nil
  then show ?case by simp
next
  case (Cons it items)
  show ?case
  proof (cases "it = item")
    case True
    have rp: "replace ''base64:'' [] (item_value item) = b64"
      using Cons.prems(4) replace_prefix [of "''base64:''" b64] by simp
    obtain bs where d: "base64Decode e b64 = Inr bs"
      using Cons.prems(1,3) True rp by (cases "base64Decode e b64") auto
    let ?k = "''lto:anchor:'' @ toLowerCase (hexEncode e bs)"
    obtain w1 where a: "addObject ?k (Str i) w = (Inr (), w1)"
      and rest: "forDataItems e i items w1 = (Inr u, w')"
      using Cons.prems(1,3) True rp d
      by (auto simp: saveAnchor_def split: prod.splits sum.splits)
    have "(i, Str i) \<in> set (objs w1 ?k)"
      using addObject_Inr [OF a] by (simp add: merge_field_member)
    then have "(i, Str i) \<in> set (objs w' ?k)" using forDataItems_keeps [OF rest] by blast
    then show ?thesis using d by blast
  next
    case False
    then have m: "item \<in> set items" using Cons.prems(2) by simp
    obtain w1 where "forDataItems e i items w1 = (Inr u, w')"
      using Cons.prems(1)
      by (auto simp: saveAnchor_def split: if_splits prod.splits sum.splits)
    then show ?thesis using Cons.IH m Cons.prems(3,4) by blast
  qed
qed

text \<open>
  Claim C8: for a type-12 transaction with a data item whose key is the anchor marker and
  whose value is \<open>base64:\<close> followed by \<open>b64\<close>, a completed \<open>processTransaction\<close> has recorded
  the transaction id in the anchor record of \<open>hexEncode(base64Decode(b64))\<close>: the record
  that \<open>getAnchor\<close> returns for this hash contains the transaction id.
\<close>

theorem legacy_anchor_recorded:
  assumes "processTransaction s tx w = (Inr u, w')"
    and "tx_type tx = 12" and "data tx = Some items"
    and "item \<in> set items" and "item_key item = anchorToken"
    and "item_value item = ''base64:'' @ b64"
  shows "\<exists>bs. base64Decode (enc s) b64 = Inr bs \<and>
     (tx_id tx, Str (tx_id tx)) \<in>
        set (objs w' (''lto:anchor:'' @ toLowerCase (hexEncode (enc s) bs))) \<and>
     (\<forall>d w2. getAnchor (hexEncode (enc s) bs) w' = (Inr d, w2) \<longrightarrow>
        (tx_id tx, Str (tx_id tx)) \<in> set d)"
proof -
  obtain w1 where "forDataItems (enc s) (tx_id tx) items w1 = (Inr u, w')"
    using assms(1,2,3)
    by (auto simp: processTransaction_def transactionTypes_def split: prod.splits sum.splits)
  from forDataItems_records [OF this assms(4,5,6)] obtain bs where
    d: "base64Decode (enc s) b64 = Inr bs"
    and m: "(tx_id tx, Str (tx_id tx)) \<in>
        set (objs w' (''lto:anchor:'' @ toLowerCase (hexEncode (enc s) bs)))" by blast
  have "\<forall>d w2. getAnchor (hexEncode (enc s) bs) w' = (Inr d, w2) \<longrightarrow>
        (tx_id tx, Str (tx_id tx)) \<in> set d"
    using m by (auto simp: getAnchor_def dest: getObject_Inr)
  then show ?thesis using d m by blast
qed

theorem legacy_anchor_recorded_witness:
  "processTransaction (test_services 1 (\<lambda>h. [])) legacy_anchor_tx empty_world =
     (Inr (),
      empty_world\<lparr>ranked := [(''anchor'', ''3Jsender'', ''tx1'', 0)],
                  objs := (objs empty_world)(''lto:anchor:dead'' := [(''tx1'', Str ''tx1'')])\<rparr>) \<and>
   tx_type legacy_anchor_tx = 12 \<and>
   data legacy_anchor_tx = Some [\<lparr> item_key = anchorToken, item_value = ''base64:3q0='' \<rparr>] \<and>
   base64Decode test_encoder ''3q0='' = Inr [0xDE, 0xAD] \<and>
   hexEncode test_encoder [0xDE, 0xAD] = ''dead'' \<and>
   (\<exists>bs. base64Decode (enc (test_services 1 (\<lambda>h. []))) ''3q0='' = Inr bs \<and>
     (tx_id legacy_anchor_tx, Str (tx_id legacy_anchor_tx)) \<in>
        set (objs (empty_world\<lparr>ranked := [(''anchor'', ''3Jsender'', ''tx1'', 0)],
                  objs := (objs empty_world)(''lto:anchor:dead'' := [(''tx1'', Str ''tx1'')])\<rparr>)
              (''lto:anchor:'' @ toLowerCase (hexEncode (enc (test_services 1 (\<lambda>h. []))) bs))))"
proof -
  have t: "tx_type legacy_anchor_tx = 12"
    "data legacy_anchor_tx = Some [\<lparr> item_key = anchorToken, item_value = ''base64:3q0='' \<rparr>]"
    by (simp_all add: legacy_anchor_tx_def)
  have i: "\<lparr> item_key = anchorToken, item_value = ''base64:3q0='' \<rparr> \<in>
      set [\<lparr> item_key = anchorToken, item_value = ''base64:3q0='' \<rparr>]"
    "item_key \<lparr> item_key = anchorToken, item_value = ''base64:3q0='' \<rparr> = anchorToken"
    "item_value \<lparr> item_key = anchorToken, item_value = ''base64:3q0='' \<rparr> = ''base64:'' @ ''3q0=''"
    by simp_all
  have e: "base64Decode test_encoder ''3q0='' = Inr [0xDE, 0xAD]"
    "hexEncode test_encoder [0xDE, 0xAD] = ''dead''"
    by (simp_all add: test_encoder_def)
  from legacy_anchor_recorded [OF legacy_anchor_write_completed t i]
  show ?thesis using legacy_anchor_write_completed t e by blast
qed

end
